theory Spec2Isabelle
  imports Main "HOL-Library.Word"
begin

section \<open>Machine integers and LLSD values\<close>

text \<open>
  The viewer's \<open>S32\<close> (and C++ \<open>int\<close>) is a 32-bit two's complement integer:
  addition wraps, comparisons are the signed ones.
\<close>

type_synonym S32 = "32 word"


text \<open>
  LLSD is the viewer's structured-data variant. Only the alternatives that the modelled
  functions inspect are represented (Real, UUID, Date, URI and Binary are left out).
  A map is kept as an association list, looked up with \<open>map_of\<close>.
\<close>

datatype LLSD =
    Undef
  | LBoolean bool
  | LInteger S32
  | LString string
  | LArray "LLSD list"
  | LMap "(string \<times> LLSD) list"





text \<open>Decimal rendering of a number, as \<open>operator<<\<close> and \<open>"%d"\<close> produce it.\<close>

definition digit_char :: "nat \<Rightarrow> char" where
  "digit_char d = char_of (48 + d)"

fun decimal :: "nat \<Rightarrow> string" where
  "decimal n =
     (if 10 \<le> n then decimal (n div 10) @ [digit_char (n mod 10)] else [digit_char n])"

declare decimal.simps [simp del]



section \<open>llinventorylistener.cpp: LLFilteredCollector\<close>

















section \<open>llinventorylistener.cpp: InvResultSet::getSlice\<close>

definition MAX_ITEM_LIMIT :: S32 where
  "MAX_ITEM_LIMIT = 100"

definition llclamp :: "S32 \<Rightarrow> S32 \<Rightarrow> S32 \<Rightarrow> S32" where
  \<comment> \<open>Modelled from the spec: \<open>llclamp\<close> is declared in a header that is not part of
      the sources at hand; it is the usual clamp on \<open>int\<close>: \<open>minval\<close> below the
      range, \<open>maxval\<close> above it, the argument itself inside.\<close>
  "llclamp a minval maxval =
     (if a <s minval then minval else if maxval <s a then maxval else a)"

text \<open>
  The abstract base class: a result set answers \<open>getLength()\<close> and \<open>getSingle(index)\<close>.
\<close>

record InvResultSet =
  getLength :: S32
  getSingle :: "S32 \<Rightarrow> LLSD"

definition array_set :: "LLSD list \<Rightarrow> nat \<Rightarrow> LLSD \<Rightarrow> LLSD list" where
  \<comment> \<open>\<open>result[i] = v\<close> on an LLSD array: an index past the end grows the array up to
      that index, the new entries in between being undefined values.\<close>
  "array_set xs i v =
     (if i < length xs then xs[i := v] else xs @ replicate (i - length xs) Undef @ [v])"

lemma sint_plus_1:
  fixes i e :: S32
  assumes "i <s e"
  shows "sint (i + 1) = sint i + 1"
proof -
  have "sint e < 2 ^ 31" using sint_lt [of e] by simp
  moreover have "- (2 ^ 31) \<le> sint i" using sint_ge [of i] by simp
  moreover have "sint i < sint e" using assms by (simp add: word_sless_alt)
  ultimately have r: "- (2 ^ 31) \<le> sint i + 1" "sint i + 1 < 2 ^ 31" by simp_all
  have "sint (i + 1) = signed_take_bit 31 (sint i + sint (1 :: S32))"
    by (simp add: sint_word_ariths)
  also have "\<dots> = sint i + 1"
    using r by (simp add: signed_take_bit_int_eq_self)
  finally show ?thesis .
qed

function getSlice_loop :: "InvResultSet \<Rightarrow> S32 \<Rightarrow> S32 \<Rightarrow> LLSD list \<Rightarrow> LLSD list" where
  \<comment> \<open>\<open>for (int i = start; i < end; ++i) result[i] = getSingle(i);\<close>\<close>
  "getSlice_loop r i end result =
     (if i <s end
      then getSlice_loop r (i + 1) end (array_set result (nat (sint i)) (getSingle r i))
      else result)"
  by pat_completeness auto
termination
  by (relation "measure (\<lambda>(r, i, e, res). nat (sint e - sint i))")
     (auto simp: sint_plus_1 word_sless_alt)

declare getSlice_loop.simps [simp del]

definition getSlice :: "InvResultSet \<Rightarrow> S32 \<Rightarrow> S32 \<Rightarrow> LLSD" where
  "getSlice r index count =
     (let length = getLength r;
          start = llclamp index 0 length;
          end = llclamp (index + llclamp count 0 MAX_ITEM_LIMIT) 0 length;
          result = []
      in if start <s end
         then LArray (getSlice_loop r start end (array_set result (nat (sint (end - 1))) Undef))
         else LArray result)"

section \<open>rlvhandler.cpp: RlvHandler\<close>

datatype EChatType =
    CHAT_TYPE_WHISPER | CHAT_TYPE_NORMAL | CHAT_TYPE_SHOUT | CHAT_TYPE_START | CHAT_TYPE_STOP
  | CHAT_TYPE_DEBUG_MSG | CHAT_TYPE_REGION | CHAT_TYPE_OWNER | CHAT_TYPE_DIRECT

type_synonym LLUUID = string

record LLChat =
  mChatType :: EChatType
  mFromID :: LLUUID

record LLViewerObject =
  isTempAttachment :: bool

datatype ECmdRet =
    ECmdRet_Unknown | ECmdRet_Success | ECmdRet_SuccessUnset | ECmdRet_SuccessDuplicate
  | ECmdRet_FailedSyntax | ECmdRet_FailedDisabled | ECmdRet_FailedParam | ECmdRet_FailedOption

datatype EParamType = EParamType_Unknown | EParamType_Reply | EParamType_Other

text \<open>
  \<open>RlvCommand\<close> is declared in rlvhelper.h; a parsed command is represented by the answers
  to the queries the handler makes of it, \<open>run_processCommand\<close> being the value of
  \<open>rlvCmd.processCommand()\<close>.
\<close>

record RlvCommand =
  getObjectID :: LLUUID
  isValid :: bool
  isBlocked :: bool
  getParamType :: EParamType
  run_processCommand :: ECmdRet

text \<open>
  What the handler reads from its surroundings: the command prefix constant, the three
  cached settings, the \<open>RlvCommand\<close> constructor and the text that \<open>CommandDbgOut::get()\<close>
  produces from the command string it was built with and the entries added to it.
\<close>

record RlvEnv =
  CmdPrefix :: char
  enable_temp_attach :: bool
  show_debug_output :: bool
  hide_unset_dupes :: bool
  new_RlvCommand :: "LLUUID \<Rightarrow> string \<Rightarrow> RlvCommand"
  CommandDbgOut_get :: "string \<Rightarrow> (string \<times> ECmdRet) list \<Rightarrow> string"

definition processCommand_ref :: "RlvCommand \<Rightarrow> bool \<Rightarrow> ECmdRet" where
  "processCommand_ref rlvCmd fromObj =
     (if \<not> isValid rlvCmd then ECmdRet_FailedSyntax
      else if isBlocked rlvCmd then ECmdRet_FailedDisabled
      else (case getParamType rlvCmd of
              EParamType_Reply \<Rightarrow> run_processCommand rlvCmd
            | other \<Rightarrow> ECmdRet_FailedParam))"

definition processCommand :: "RlvEnv \<Rightarrow> LLUUID \<Rightarrow> string \<Rightarrow> bool \<Rightarrow> ECmdRet" where
  "processCommand env idObj strCmd fromObj =
     processCommand_ref (new_RlvCommand env idObj strCmd) fromObj"

definition tolower :: "char \<Rightarrow> char" where
  \<comment> \<open>\<open>::tolower\<close> in the C locale\<close>
  "tolower c =
     (if 65 \<le> (of_char c :: nat) \<and> (of_char c :: nat) \<le> 90
      then char_of (of_char c + 32 :: nat) else c)"

definition toLower :: "string \<Rightarrow> string" where
  "toLower s = map tolower s"

fun tokenize :: "string \<Rightarrow> string \<Rightarrow> string list" where
  \<comment> \<open>\<open>boost::char_separator<char>(",", "", boost::drop_empty_tokens)\<close>; the first
      argument is the token read so far.\<close>
  "tokenize cur [] = (if cur = [] then [] else [cur])"
| "tokenize cur (c # cs) =
     (if c = CHR '','' then (if cur = [] then tokenize [] cs else cur # tokenize [] cs)
      else tokenize (cur @ [c]) cs)"

fun command_loop :: "RlvEnv \<Rightarrow> LLUUID \<Rightarrow> string list \<Rightarrow> (string \<times> ECmdRet) list
                      \<Rightarrow> (string \<times> ECmdRet) list" where
  \<comment> \<open>The loop over the tokens; the last argument holds the entries added to
      \<open>cmdDbgOut\<close> so far.\<close>
  "command_loop env fromID [] dbg = dbg"
| "command_loop env fromID (strCmd # rest) dbg =
     (let eRet = processCommand env fromID strCmd True
      in if show_debug_output env
            \<and> (\<not> hide_unset_dupes env
                 \<or> (ECmdRet_SuccessUnset \<noteq> eRet \<and> ECmdRet_SuccessDuplicate \<noteq> eRet))
         then command_loop env fromID rest (dbg @ [(strCmd, eRet)])
         else command_loop env fromID rest dbg)"

definition handleSimulatorChat ::
  "RlvEnv \<Rightarrow> string \<Rightarrow> LLChat \<Rightarrow> LLViewerObject option \<Rightarrow> bool \<times> string" where
  \<comment> \<open>Returns the result together with the contents of the \<open>message\<close> reference
      parameter at return.\<close>
  "handleSimulatorChat env message chat chatObj =
     (if length message \<le> 3 then (False, message)
      else if CmdPrefix env \<noteq> message ! 0 then (False, message)
      else if CHAT_TYPE_OWNER \<noteq> mChatType chat then (False, message)
      else if (case chatObj of None \<Rightarrow> False
               | Some obj \<Rightarrow> isTempAttachment obj \<and> \<not> enable_temp_attach env)
      then (False, message)
      else (let message1 = drop 1 message;
                message2 = toLower message1;
                dbg = command_loop env (mFromID chat) (tokenize [] message2) []
            in (True, CommandDbgOut_get env message2 dbg)))"

section \<open>llcoros.h: the stop exceptions\<close>

text \<open>
  The exception classes declared in llcoros.h, with their direct base class.
  \<open>LLContinueError\<close> itself is declared in llexception.h; any exception type from
  elsewhere is \<open>Foreign\<close>.
\<close>

datatype exc_type =
    LLContinueError | Stop | Killed | Stopping | Stopped | Shutdown | Foreign string

fun base :: "exc_type \<Rightarrow> exc_type option" where
  "base Stop = Some LLContinueError"
| "base Killed = Some Stop"
| "base Stopping = Some Stop"
| "base Stopped = Some Stop"
| "base Shutdown = Some Stop"
| "base LLContinueError = None"
| "base (Foreign n) = None"

fun depth :: "exc_type \<Rightarrow> nat" where
  "depth Stop = 1"
| "depth Killed = 2"
| "depth Stopping = 2"
| "depth Stopped = 2"
| "depth Shutdown = 2"
| "depth LLContinueError = 0"
| "depth (Foreign n) = 0"

function is_a :: "exc_type \<Rightarrow> exc_type \<Rightarrow> bool" where
  \<comment> \<open>\<open>is_a t h\<close>: a handler \<open>catch (const h&)\<close> catches a thrown object of class \<open>t\<close>,
      that is, \<open>t\<close> is \<open>h\<close> or derives from it.\<close>
  "is_a t h = (if t = h then True else (case base t of None \<Rightarrow> False | Some b \<Rightarrow> is_a b h))"
  by pat_completeness auto
termination
proof (relation "measure (\<lambda>(t, h). depth t)")
  show "wf (measure (\<lambda>(t, h). depth t))" by simp
next
  fix t h b :: exc_type
  assume "t \<noteq> h" "base t = Some b"
  then show "((b, h), (t, h)) \<in> measure (\<lambda>(t, h). depth t)"
    by (cases t) auto
qed

declare is_a.simps [simp del]

record exception_ptr =
  ex_type :: exc_type
  ex_what :: string

section \<open>llcoros.h: the registry\<close>

record CoroData =
  mName :: string
  mConsuming :: bool
  mKilledBy :: string
  mStatus :: string
  mCreationTime :: nat

record ExceptionData =
  name_of :: string
  exception_of :: exception_ptr

datatype phase = Phase_Running | Phase_Stopping | Phase_Stopped | Phase_Shutdown

text \<open>
  A callable (\<open>std::function<void()>\<close>) acts on the world outside the registry and may
  throw. A coroutine body is a callable that can also suspend, so it is written as the
  sequence of its steps: an action on the world, a suspension point, a throw, or a call
  of \<open>checkStop\<close> with an optional cleanup callable.
\<close>

type_synonym 'w callable_t = "'w \<Rightarrow> exception_ptr option \<times> 'w"

datatype 'w instr =
    Act "'w \<Rightarrow> 'w"
  | Suspend
  | Throw exception_ptr
  | CheckStop "'w callable_t option"

text \<open>
  A stop listener, as \<open>getStopListener\<close> registers it: who registered it, the one coroutine
  that waits on the resource (the three-argument overload only), and the cleanup that
  closes the resource so that a waiting consumer wakes up.
\<close>

record 'w StopListener =
  listener_caller :: string
  listener_consumer :: "string option"
  listener_cleanup :: "'w \<Rightarrow> 'w"

record 'w LLCoros =
  instances :: "CoroData list"
  mExceptionQueue :: "ExceptionData list"
  mStackSize :: S32
  unique :: nat
  phase :: phase
  suspended :: "(string \<times> 'w instr list) list"
  world :: 'w
  now :: nat
  mStopListeners :: "'w StopListener list"

definition new_CoroData :: "string \<Rightarrow> nat \<Rightarrow> CoroData" where
  \<comment> \<open>\<open>CoroData(const std::string& name)\<close>: the name, the creation time, and the member
      initialisers of the header for the rest\<close>
  "new_CoroData name t =
     \<lparr> mName = name, mConsuming = False, mKilledBy = [], mStatus = [], mCreationTime = t \<rparr>"

definition getInstance :: "string \<Rightarrow> 'w LLCoros \<Rightarrow> CoroData option" where
  \<comment> \<open>\<open>CoroData::getInstance(name)\<close> of the instance tracker: the live record with that
      name, if any\<close>
  "getInstance name s = find (\<lambda>d. mName d = name) (instances s)"

definition live_names :: "'w LLCoros \<Rightarrow> string list" where
  "live_names s = map mName (instances s)"

subsection \<open>Name generation\<close>

lemma digit_char_inj: "a < 10 \<Longrightarrow> b < 10 \<Longrightarrow> digit_char a = digit_char b \<Longrightarrow> a = b"
proof -
  assume a: "a < 10" and b: "b < 10" and eq: "digit_char a = digit_char b"
  have "(of_char (digit_char a) :: nat) = of_char (digit_char b)" using eq by simp
  then have "(48 + a) mod 256 = (48 + b) mod 256"
    by (simp add: digit_char_def)
  then show "a = b" using a b by simp
qed

lemma decimal_nonempty: "decimal n \<noteq> []"
  by (subst decimal.simps) simp

lemma decimal_inj: "decimal n = decimal m \<Longrightarrow> n = m"
proof (induction n arbitrary: m rule: decimal.induct)
  case (1 n)
  show ?case
  proof (cases "n < 10")
    case True
    then have sn: "decimal n = [digit_char n]" by (subst decimal.simps) simp
    show ?thesis
    proof (cases "m < 10")
      case m: True
      then have "decimal m = [digit_char m]" by (subst decimal.simps) simp
      with sn "1.prems" True m show ?thesis by (auto dest: digit_char_inj)
    next
      case False
      then have "decimal m = decimal (m div 10) @ [digit_char (m mod 10)]"
        by (subst decimal.simps) simp
      with sn "1.prems" decimal_nonempty [of "m div 10"] show ?thesis by simp
    qed
  next
    case False
    then have sn: "decimal n = decimal (n div 10) @ [digit_char (n mod 10)]"
      by (subst decimal.simps) simp
    show ?thesis
    proof (cases "m < 10")
      case True
      then have "decimal m = [digit_char m]" by (subst decimal.simps) simp
      with sn "1.prems" decimal_nonempty [of "n div 10"] show ?thesis by simp
    next
      case m: False
      then have sm: "decimal m = decimal (m div 10) @ [digit_char (m mod 10)]"
        by (subst decimal.simps) simp
      from sn sm "1.prems" have eq: "decimal (n div 10) = decimal (m div 10)"
        and d: "digit_char (n mod 10) = digit_char (m mod 10)" by simp_all
      have "10 \<le> n" using False by simp
      then have "n div 10 = m div 10" using eq by (rule "1.IH")
      moreover have "n mod 10 = m mod 10" by (rule digit_char_inj [OF _ _ d]) simp_all
      ultimately show ?thesis by (metis div_mult_mod_eq)
    qed
  qed
qed

lemma finite_taken: "finite {m. prefix @ decimal m \<in> set live}"
proof -
  have "inj (\<lambda>m. prefix @ decimal m)"
    by (rule injI) (simp add: decimal_inj)
  then have "finite ((\<lambda>m. prefix @ decimal m) -` set live)"
    by (intro finite_vimageI) simp_all
  then show ?thesis by (simp add: vimage_def)
qed

function find_unused :: "string \<Rightarrow> string list \<Rightarrow> nat \<Rightarrow> nat" where
  \<comment> \<open>Modelled from the spec: the search loop of the name generator, whose body is not
      part of the header: the smallest integer from \<open>n\<close> on such that prefix + integer
      is not the name of a live record.\<close>
  "find_unused prefix live n =
     (if prefix @ decimal n \<in> set live then find_unused prefix live (Suc n) else n)"
  by pat_completeness auto
termination
proof (relation "measure (\<lambda>(prefix, live, n). card {m. n \<le> m \<and> prefix @ decimal m \<in> set live})")
  show "wf (measure (\<lambda>(prefix, live, n). card {m. n \<le> m \<and> prefix @ decimal m \<in> set live}))"
    by simp
next
  fix prefix :: string and live :: "string list" and n :: nat
  assume taken: "prefix @ decimal n \<in> set live"
  let ?A = "\<lambda>k. {m. k \<le> m \<and> prefix @ decimal m \<in> set live}"
  have fin: "finite (?A n)"
    by (rule finite_subset [OF _ finite_taken [of prefix live]]) auto
  have "?A (Suc n) \<subseteq> ?A n" by auto
  moreover have "n \<in> ?A n" "n \<notin> ?A (Suc n)" using taken by simp_all
  ultimately have "?A (Suc n) \<subset> ?A n" by blast
  then have "card (?A (Suc n)) < card (?A n)"
    using fin by (rule psubset_card_mono [rotated])
  then show "((prefix, live, Suc n), (prefix, live, n))
      \<in> measure (\<lambda>(prefix, live, n). card {m. n \<le> m \<and> prefix @ decimal m \<in> set live})"
    by simp
qed

declare find_unused.simps [simp del]

definition generateDistinctName :: "string \<Rightarrow> 'w LLCoros \<Rightarrow> string \<times> 'w LLCoros" where
  \<comment> \<open>Modelled from the spec: \<open>generateDistinctName\<close> is only declared in the header. It
      appends the smallest integer, starting at the registry's running counter, such that
      prefix + integer is not a live record name; the counter runs on from the integer
      used.\<close>
  "generateDistinctName prefix s =
     (let n = find_unused prefix (live_names s) (unique s)
      in (prefix @ decimal n, s \<lparr> unique := Suc n \<rparr>))"

subsection \<open>Cooperative stop\<close>

definition stop_signal :: "CoroData \<Rightarrow> phase \<Rightarrow> exception_ptr option" where
  \<comment> \<open>Modelled from the spec: the typed interrupt that the calling fiber's kill flag and
      the global phase call for. The signals are ordered by severity,
      Killed < Stopping < Stopped < Shutdown, and the interrupt raised is the most severe
      one in effect, so that it tells how far teardown has gone; a record whose
      \<open>mKilledBy\<close> is empty is running normally. \<open>Killed\<close> carries the requester.\<close>
  "stop_signal d ph =
     (case ph of
        Phase_Shutdown \<Rightarrow> Some \<lparr> ex_type = Shutdown, ex_what = ''shutdown'' \<rparr>
      | Phase_Stopped \<Rightarrow> Some \<lparr> ex_type = Stopped, ex_what = ''stopped'' \<rparr>
      | Phase_Stopping \<Rightarrow> Some \<lparr> ex_type = Stopping, ex_what = ''stopping'' \<rparr>
      | Phase_Running \<Rightarrow>
          (if mKilledBy d \<noteq> [] then Some \<lparr> ex_type = Killed, ex_what = mKilledBy d \<rparr>
           else None))"

definition checkStop ::
  "'w callable_t option \<Rightarrow> CoroData \<Rightarrow> phase \<Rightarrow> 'w \<Rightarrow> exception_ptr option \<times> 'w" where
  \<comment> \<open>Modelled from the spec: \<open>checkStop\<close> is only declared in the header. Called by the
      fiber that owns record \<open>d\<close>: when that fiber has to stop, the cleanup (if one was
      passed) runs first and then the interrupt is thrown; an exception thrown by the
      cleanup is the one that leaves \<open>checkStop\<close>. The result is the exception thrown,
      if any, and the world afterwards.\<close>
  "checkStop cleanup d ph w =
     (case stop_signal d ph of
        None \<Rightarrow> (None, w)
      | Some interrupt \<Rightarrow>
          (case cleanup of
             None \<Rightarrow> (Some interrupt, w)
           | Some f \<Rightarrow>
               (case f w of
                  (Some e, w') \<Rightarrow> (Some e, w')
                | (None, w') \<Rightarrow> (Some interrupt, w'))))"

subsection \<open>Running coroutines\<close>

datatype 'w outcome = Completed | Suspended "'w instr list" | Raised exception_ptr

fun run_body :: "string \<Rightarrow> 'w instr list \<Rightarrow> 'w LLCoros \<Rightarrow> 'w outcome \<times> 'w LLCoros" where
  \<comment> \<open>Modelled from the spec: the cooperative scheduler is outside the header. The
      fiber named \<open>name\<close> runs its remaining steps up to the next suspension point, to
      the end, or to an exception that leaves the body; nothing else runs meanwhile.\<close>
  "run_body name [] s = (Completed, s)"
| "run_body name (Act f # rest) s = run_body name rest (s \<lparr> world := f (world s) \<rparr>)"
| "run_body name (Suspend # rest) s = (Suspended rest, s)"
| "run_body name (Throw e # rest) s = (Raised e, s)"
| "run_body name (CheckStop cleanup # rest) s =
     (case getInstance name s of
        None \<Rightarrow> run_body name rest s
      | Some d \<Rightarrow>
          (case checkStop cleanup d (phase s) (world s) of
             (Some e, w') \<Rightarrow> (Raised e, s \<lparr> world := w' \<rparr>)
           | (None, w') \<Rightarrow> run_body name rest (s \<lparr> world := w' \<rparr>)))"

definition saveException :: "string \<Rightarrow> exception_ptr \<Rightarrow> 'w LLCoros \<Rightarrow> 'w LLCoros" where
  \<comment> \<open>Modelled from the spec: \<open>saveException\<close> is only declared in the header; it appends
      the coroutine's name and its exception to the queue.\<close>
  "saveException name exc s =
     s \<lparr> mExceptionQueue := mExceptionQueue s @ [\<lparr> name_of = name, exception_of = exc \<rparr>] \<rparr>"

definition erase_record :: "string \<Rightarrow> 'w LLCoros \<Rightarrow> 'w LLCoros" where
  \<comment> \<open>Modelled from the spec: the registry reclaims the record of a fiber that has
      ended.\<close>
  "erase_record name s = s \<lparr> instances := filter (\<lambda>d. mName d \<noteq> name) (instances s) \<rparr>"

fun settle :: "string \<Rightarrow> 'w outcome \<times> 'w LLCoros \<Rightarrow> 'w LLCoros" where
  \<comment> \<open>Modelled from the spec: what the fiber's wrapper does when the body stops running.
      At a suspension point the rest of the body waits in the scheduler; when the body
      returns or an exception reaches the top, the record is destroyed; a stop interrupt
      is discarded, any other exception is queued for the main context.\<close>
  "settle name (Suspended rest, s) = s \<lparr> suspended := suspended s @ [(name, rest)] \<rparr>"
| "settle name (Completed, s) = erase_record name s"
| "settle name (Raised e, s) =
     (if is_a (ex_type e) Stop then erase_record name s
      else saveException name e (erase_record name s))"

definition toplevel :: "string \<Rightarrow> 'w instr list \<Rightarrow> 'w LLCoros \<Rightarrow> 'w LLCoros" where
  \<comment> \<open>Modelled from the spec: \<open>toplevel\<close> is only declared in the header.\<close>
  "toplevel name callable s = settle name (run_body name callable s)"

definition launch :: "string \<Rightarrow> 'w instr list \<Rightarrow> 'w LLCoros \<Rightarrow> (exception_ptr + string) \<times> 'w LLCoros" where
  \<comment> \<open>Modelled from the spec: \<open>launch\<close> is only declared in the header. It generates the
      name, creates the record, runs the new fiber on the calling thread until it first
      suspends or finishes, and returns the name. The result is \<open>Inl\<close> for an exception
      leaving the call, \<open>Inr\<close> for the name returned.\<close>
  "launch prefix callable s =
     (let (name, s1) = generateDistinctName prefix s;
          s2 = s1 \<lparr> instances := instances s1 @ [new_CoroData name (now s1)] \<rparr>
      in (Inr name, toplevel name callable s2))"

definition resume :: "string \<Rightarrow> 'w LLCoros \<Rightarrow> 'w LLCoros" where
  \<comment> \<open>Modelled from the spec: the scheduler lets the suspended fiber \<open>name\<close> run on
      to its next suspension point or to its end.\<close>
  "resume name s =
     (case map_of (suspended s) name of
        None \<Rightarrow> s
      | Some rest \<Rightarrow>
          settle name
            (run_body name rest (s \<lparr> suspended := filter (\<lambda>p. fst p \<noteq> name) (suspended s) \<rparr>)))"

definition getStopListener ::
  "string \<Rightarrow> string option \<Rightarrow> ('w \<Rightarrow> 'w) \<Rightarrow> 'w LLCoros \<Rightarrow> 'w LLCoros" where
  \<comment> \<open>Modelled from the spec: \<open>getStopListener\<close> is only declared in the header. The
      consumer is \<open>None\<close> for the two-argument overload and the consumer's name for the
      three-argument one (an empty consumer argument stands for the calling coroutine and
      is passed here as that coroutine's name). Disconnecting is not represented.\<close>
  "getStopListener caller consumer cleanup s =
     s \<lparr> mStopListeners := mStopListeners s
            @ [\<lparr> listener_caller = caller, listener_consumer = consumer,
                 listener_cleanup = cleanup \<rparr>] \<rparr>"

definition notify_stop :: "('w StopListener \<Rightarrow> bool) \<Rightarrow> 'w LLCoros \<Rightarrow> 'w LLCoros" where
  \<comment> \<open>Modelled from the spec: the stop signal reaches the selected listeners, whose
      cleanups run in the order of registration.\<close>
  "notify_stop selected s =
     s \<lparr> world := foldl (\<lambda>w l. listener_cleanup l w) (world s)
                       (filter selected (mStopListeners s)) \<rparr>"

definition requester :: "string \<Rightarrow> string" where
  \<comment> \<open>Modelled from the spec: the identity under which a calling context is recorded: its
      registry name, or the synthesized main label for a context that has none.\<close>
  "requester caller = (if caller = [] then ''main'' else caller)"

definition killreq :: "string \<Rightarrow> string \<Rightarrow> 'w LLCoros \<Rightarrow> bool \<times> 'w LLCoros" where
  \<comment> \<open>Modelled from the spec: \<open>killreq\<close> is only declared in the header. \<open>caller\<close> is the
      registry name of the calling context (empty on the main context). When a live
      record has the name, its \<open>mKilledBy\<close> is set to the requester and the stop listeners
      registered for that consumer are notified; the result says whether a live record
      was found.\<close>
  "killreq caller name s =
     (case getInstance name s of
        None \<Rightarrow> (False, s)
      | Some d \<Rightarrow>
          (True,
           notify_stop (\<lambda>l. listener_consumer l = Some name)
             (s \<lparr> instances :=
                    map (\<lambda>d. if mName d = name then d \<lparr> mKilledBy := requester caller \<rparr> else d)
                        (instances s) \<rparr>)))"

definition rethrow :: "'w LLCoros \<Rightarrow> exception_ptr option \<times> 'w LLCoros" where
  \<comment> \<open>Modelled from the spec: \<open>rethrow\<close> is only declared in the header. It pops the
      first queued exception and throws it; with an empty queue it does nothing.\<close>
  "rethrow s =
     (case mExceptionQueue s of
        [] \<Rightarrow> (None, s)
      | x # q \<Rightarrow> (Some (exception_of x), s \<lparr> mExceptionQueue := q \<rparr>))"

text \<open>
  A history of the registry: the calls made on the main context and the scheduler's
  resumptions, each with what the call gave back.
\<close>

datatype 'w event =
    Launch string "'w instr list"
  | Resume string
  | Killreq string string
  | Rethrow
  | SetPhase phase
  | GetStopListener string "string option" "'w \<Rightarrow> 'w"

datatype ret = RetName string | RetBool bool | RetVoid | RetRaise exception_ptr

definition set_phase :: "phase \<Rightarrow> 'w LLCoros \<Rightarrow> 'w LLCoros" where
  \<comment> \<open>Modelled from the spec: the application's teardown enters a phase; entering a stop
      phase is the global stop signal, which reaches every stop listener.\<close>
  "set_phase ph s =
     (if ph = Phase_Running then s \<lparr> phase := ph \<rparr>
      else notify_stop (\<lambda>l. True) (s \<lparr> phase := ph \<rparr>))"

fun step :: "'w event \<Rightarrow> 'w LLCoros \<Rightarrow> ret \<times> 'w LLCoros" where
  "step (Launch prefix callable) s =
     (case launch prefix callable s of
        (Inl e, s') \<Rightarrow> (RetRaise e, s')
      | (Inr name, s') \<Rightarrow> (RetName name, s'))"
| "step (Resume name) s = (RetVoid, resume name s)"
| "step (Killreq caller name) s = (case killreq caller name s of (b, s') \<Rightarrow> (RetBool b, s'))"
| "step Rethrow s =
     (case rethrow s of (None, s') \<Rightarrow> (RetVoid, s') | (Some e, s') \<Rightarrow> (RetRaise e, s'))"
| "step (SetPhase ph) s = (RetVoid, set_phase ph s)"
| "step (GetStopListener caller consumer cleanup) s =
     (RetVoid, getStopListener caller consumer cleanup s)"

fun run :: "'w event list \<Rightarrow> 'w LLCoros \<Rightarrow> ret list \<times> 'w LLCoros" where
  "run [] s = ([], s)"
| "run (ev # evs) s =
     (case step ev s of (r, s1) \<Rightarrow> (case run evs s1 of (rs, s2) \<Rightarrow> (r # rs, s2)))"

fun launched_with :: "string \<Rightarrow> 'w event list \<Rightarrow> ret list \<Rightarrow> string list" where
  \<comment> \<open>The names that the launches with the given prefix returned, in order.\<close>
  "launched_with prefix (Launch p c # evs) (RetName name # rs) =
     (if p = prefix then name # launched_with prefix evs rs else launched_with prefix evs rs)"
| "launched_with prefix (ev # evs) (r # rs) = launched_with prefix evs rs"
| "launched_with prefix evs rs = []"

fun raised :: "ret list \<Rightarrow> exception_ptr list" where
  \<comment> \<open>The exceptions that left the calls of a history, in order.\<close>
  "raised [] = []"
| "raised (RetRaise e # rs) = e # raised rs"
| "raised (r # rs) = raised rs"

text \<open>
  The state in which a fiber starts or goes on running, and what a stretch of steps does
  that neither suspends nor throws.
\<close>

definition launch_state :: "string \<Rightarrow> 'w LLCoros \<Rightarrow> 'w LLCoros" where
  \<comment> \<open>the registry as a newly launched fiber finds it: the name generated, its record
      created\<close>
  "launch_state prefix s =
     (case generateDistinctName prefix s of
        (name, s1) \<Rightarrow> s1 \<lparr> instances := instances s1 @ [new_CoroData name (now s1)] \<rparr>)"

definition resume_state :: "string \<Rightarrow> 'w LLCoros \<Rightarrow> 'w LLCoros" where
  \<comment> \<open>the registry as a resumed fiber finds it: it no longer waits in the scheduler\<close>
  "resume_state name s = s \<lparr> suspended := filter (\<lambda>p. fst p \<noteq> name) (suspended s) \<rparr>"

definition must_stop :: "string \<Rightarrow> 'w LLCoros \<Rightarrow> bool" where
  \<comment> \<open>the kill flag of the fiber's record or the global phase calls for termination\<close>
  "must_stop name s =
     (case getInstance name s of
        None \<Rightarrow> False
      | Some d \<Rightarrow> (case stop_signal d (phase s) of None \<Rightarrow> False | Some interrupt \<Rightarrow> True))"

fun passes :: "bool \<Rightarrow> 'w instr \<Rightarrow> bool" where
  \<comment> \<open>the step lets the fiber run on: an action always, a call of \<open>checkStop\<close> when the
      fiber does not have to stop\<close>
  "passes stopping (Act f) = True"
| "passes stopping (CheckStop cleanup) = (if stopping then False else True)"
| "passes stopping Suspend = False"
| "passes stopping (Throw e) = False"

fun apply_step :: "'w \<Rightarrow> 'w instr \<Rightarrow> 'w" where
  "apply_step w (Act f) = f w"
| "apply_step w i = w"

fun uncaught :: "'w outcome \<Rightarrow> exception_ptr list" where
  \<comment> \<open>the exception with which a body ended, unless it is a stop interrupt\<close>
  "uncaught (Raised e) = (if is_a (ex_type e) Stop then [] else [e])"
| "uncaught out = []"

fun thrown_by :: "'w event \<Rightarrow> 'w LLCoros \<Rightarrow> exception_ptr list" where
  \<comment> \<open>the non-stop exception that the coroutine body run by this event throws\<close>
  "thrown_by (Launch prefix callable) s =
     uncaught (fst (run_body (fst (generateDistinctName prefix s)) callable (launch_state prefix s)))"
| "thrown_by (Resume name) s =
     (case map_of (suspended s) name of
        None \<Rightarrow> []
      | Some rest \<Rightarrow> uncaught (fst (run_body name rest (resume_state name s))))"
| "thrown_by ev s = []"

fun captured :: "'w event list \<Rightarrow> 'w LLCoros \<Rightarrow> exception_ptr list" where
  \<comment> \<open>the non-stop exceptions that coroutine bodies throw in the course of a history, in
      the order in which they are thrown\<close>
  "captured [] s = []"
| "captured (ev # evs) s = thrown_by ev s @ captured evs (snd (step ev s))"

subsection \<open>Status\<close>

definition setStatus :: "string \<Rightarrow> CoroData \<Rightarrow> CoroData" where
  \<comment> \<open>Modelled from the spec: \<open>setStatus\<close> and \<open>getStatus\<close> are only declared in the
      header; they write and read the diagnostic string of the calling fiber's own
      record.\<close>
  "setStatus status d = d \<lparr> mStatus := status \<rparr>"

definition getStatus :: "CoroData \<Rightarrow> string" where
  "getStatus d = mStatus d"

record TempStatus =
  mOldStatus :: string

definition TempStatus_ctor :: "string \<Rightarrow> CoroData \<Rightarrow> TempStatus \<times> CoroData" where
  \<comment> \<open>\<open>TempStatus(const std::string& status): mOldStatus(getStatus()) { setStatus(status); }\<close>\<close>
  "TempStatus_ctor status d = (\<lparr> mOldStatus = getStatus d \<rparr>, setStatus status d)"

definition TempStatus_dtor :: "TempStatus \<Rightarrow> CoroData \<Rightarrow> CoroData" where
  \<comment> \<open>\<open>~TempStatus() { setStatus(mOldStatus); }\<close>\<close>
  "TempStatus_dtor g d = setStatus (mOldStatus g) d"

text \<open>
  Code of a fiber that uses the status: a call of \<open>getStatus()\<close> (its result is logged), a
  direct call of \<open>setStatus\<close>, a throw, and a block that declares a \<open>TempStatus\<close> guard at
  its start. The guard's destructor runs when the block is left, by reaching its end or
  by an exception.
\<close>

datatype stmt =
    CallGetStatus
  | CallSetStatus string
  | ThrowStmt exception_ptr
  | Guarded string "stmt list"

fun exec :: "stmt \<Rightarrow> CoroData \<times> string list \<Rightarrow> exception_ptr option \<times> CoroData \<times> string list"
and exec_block :: "stmt list \<Rightarrow> CoroData \<times> string list \<Rightarrow> exception_ptr option \<times> CoroData \<times> string list"
where
  "exec CallGetStatus (d, log) = (None, d, log @ [getStatus d])"
| "exec (CallSetStatus status) (d, log) = (None, setStatus status d, log)"
| "exec (ThrowStmt e) (d, log) = (Some e, d, log)"
| "exec (Guarded status body) (d, log) =
     (case TempStatus_ctor status d of
        (guard, d1) \<Rightarrow>
          (case exec_block body (d1, log) of
             (r, d2, log2) \<Rightarrow> (r, TempStatus_dtor guard d2, log2)))"
| "exec_block [] (d, log) = (None, d, log)"
| "exec_block (st # rest) (d, log) =
     (case exec st (d, log) of
        (Some e, d1, log1) \<Rightarrow> (Some e, d1, log1)
      | (None, d1, log1) \<Rightarrow> exec_block rest (d1, log1))"

fun is_set :: "stmt \<Rightarrow> bool" where
  \<comment> \<open>the statement is itself a direct call of \<open>setStatus\<close>\<close>
  "is_set (CallSetStatus status) = True"
| "is_set st = False"

section \<open>Properties of LLFilteredCollector\<close>








section \<open>Properties of InvResultSet::getSlice\<close>

lemma sint_llclamp:
  "sint (llclamp a lo hi) =
     (if sint a < sint lo then sint lo else if sint hi < sint a then sint hi else sint a)"
  by (simp add: llclamp_def word_sless_alt)

lemma sint_eq_iff: "(sint (a :: S32) = sint b) = (a = b)"
  by (auto intro: signed_word_eqI)

lemma getSlice_loop_spec:
  "0 \<le> sint i \<Longrightarrow> sint i \<le> sint e \<Longrightarrow> length res = nat (sint e) \<Longrightarrow>
   length (getSlice_loop r i e res) = length res
   \<and> (\<forall>j. j < nat (sint i) \<longrightarrow> getSlice_loop r i e res ! j = res ! j)
   \<and> (\<forall>k::S32. sint i \<le> sint k \<and> sint k < sint e \<longrightarrow> getSlice_loop r i e res ! nat (sint k) = getSingle r k)"
proof (induction r i e res rule: getSlice_loop.induct)
  case (1 r i e res)
  show ?case
  proof (cases "i <s e")
    case False
    then have "sint e \<le> sint i" by (simp add: word_sless_alt)
    with False show ?thesis by (subst (1 2 3) getSlice_loop.simps) (auto simp: word_sless_alt)
  next
    case True
    let ?res1 = "array_set res (nat (sint i)) (getSingle r i)"
    have lt: "sint i < sint e" using True by (simp add: word_sless_alt)
    have s1: "sint (i + 1) = sint i + 1" by (rule sint_plus_1 [OF True])
    have inb: "nat (sint i) < length res" using lt "1.prems" by simp
    have res1: "?res1 = res[nat (sint i) := getSingle r i]"
      using inb by (simp add: array_set_def)
    have len1: "length ?res1 = nat (sint e)" using "1.prems" by (simp add: res1)
    have IH: "length (getSlice_loop r (i + 1) e ?res1) = length ?res1
       \<and> (\<forall>j. j < nat (sint (i + 1)) \<longrightarrow> getSlice_loop r (i + 1) e ?res1 ! j = ?res1 ! j)
       \<and> (\<forall>k::S32. sint (i + 1) \<le> sint k \<and> sint k < sint e \<longrightarrow>
              getSlice_loop r (i + 1) e ?res1 ! nat (sint k) = getSingle r k)"
      using "1.IH" [OF True] "1.prems" lt len1 by (simp add: s1)
    have unf: "getSlice_loop r i e res = getSlice_loop r (i + 1) e ?res1"
      using True by (subst getSlice_loop.simps) simp
    have a: "length (getSlice_loop r i e res) = length res"
      using IH by (simp add: unf res1)
    have b: "\<forall>j. j < nat (sint i) \<longrightarrow> getSlice_loop r i e res ! j = res ! j"
    proof (intro allI impI)
      fix j assume j: "j < nat (sint i)"
      then have "j < nat (sint (i + 1))" using "1.prems" by (simp add: s1)
      then have "getSlice_loop r (i + 1) e ?res1 ! j = ?res1 ! j" using IH by blast
      also have "\<dots> = res ! j" using j by (simp add: res1)
      finally show "getSlice_loop r i e res ! j = res ! j" by (simp only: unf)
    qed
    have c: "\<forall>k::S32. sint i \<le> sint k \<and> sint k < sint e \<longrightarrow>
                getSlice_loop r i e res ! nat (sint k) = getSingle r k"
    proof (intro allI impI)
      fix k :: S32 assume k: "sint i \<le> sint k \<and> sint k < sint e"
      show "getSlice_loop r i e res ! nat (sint k) = getSingle r k"
      proof (cases "sint k = sint i")
        case True
        then have ki: "k = i" by (simp add: sint_eq_iff)
        have "nat (sint i) < nat (sint (i + 1))" using "1.prems" by (simp add: s1)
        then have "getSlice_loop r (i + 1) e ?res1 ! nat (sint i) = ?res1 ! nat (sint i)"
          using IH by blast
        also have "\<dots> = getSingle r i" using inb by (simp add: res1)
        finally show ?thesis by (simp only: unf ki)
      next
        case False
        then have "sint (i + 1) \<le> sint k \<and> sint k < sint e" using k by (simp add: s1)
        then have "getSlice_loop r (i + 1) e ?res1 ! nat (sint k) = getSingle r k"
          using IH by blast
        then show ?thesis by (simp only: unf)
      qed
    qed
    from a b c show ?thesis by blast
  qed
qed

lemma sint_minus_1:
  fixes e :: S32
  assumes "0 < sint e"
  shows "sint (e - 1) = sint e - 1"
proof -
  have "sint e < 2 ^ 31" using sint_lt [of e] by simp
  then have r: "- (2 ^ 31) \<le> sint e - 1" "sint e - 1 < 2 ^ 31" using assms by simp_all
  have "sint (e - 1) = signed_take_bit 31 (sint e - sint (1 :: S32))"
    by (simp add: sint_word_ariths)
  also have "\<dots> = sint e - 1"
    using r by (simp add: signed_take_bit_int_eq_self)
  finally show ?thesis .
qed

lemma sint_add_cases:
  fixes a c :: S32
  assumes "0 \<le> sint c"
  shows "sint (a + c) = sint a + sint c \<or> sint (a + c) < 0"
proof (cases "sint a + sint c < 2 ^ 31")
  case True
  have "- (2 ^ 31) \<le> sint a" using sint_ge [of a] by simp
  then have "- (2 ^ 31) \<le> sint a + sint c" using assms by simp
  then have "signed_take_bit 31 (sint a + sint c) = sint a + sint c"
    using True by (simp add: signed_take_bit_int_eq_self)
  then show ?thesis by (simp add: sint_word_ariths)
next
  case False
  then have ge: "2 ^ 31 \<le> sint a + sint c" by simp
  have "sint a < 2 ^ 31" "sint c < 2 ^ 31" using sint_lt [of a] sint_lt [of c] by simp_all
  then have "sint a + sint c - 2 ^ Suc 31 < 0" by simp
  moreover have "signed_take_bit 31 (sint a + sint c) \<le> sint a + sint c - 2 ^ Suc 31"
    using ge by (intro signed_take_bit_int_less_eq) simp
  ultimately have "signed_take_bit 31 (sint a + sint c) < 0" by linarith
  then show ?thesis by (simp add: sint_word_ariths)
qed

lemma slice_bounds:
  fixes index count L :: S32
  assumes "0 \<le> sint L"
  defines "start \<equiv> llclamp index 0 L"
  defines "e \<equiv> llclamp (index + llclamp count 0 MAX_ITEM_LIMIT) 0 L"
  shows "0 \<le> sint start \<and> sint start \<le> sint L \<and> 0 \<le> sint e \<and> sint e \<le> sint L
         \<and> sint e - sint start \<le> 100"
proof -
  let ?c = "llclamp count 0 MAX_ITEM_LIMIT"
  have c: "0 \<le> sint ?c" "sint ?c \<le> 100"
    by (simp_all add: sint_llclamp MAX_ITEM_LIMIT_def)
  have st: "sint start = (if sint index < 0 then 0 else if sint L < sint index then sint L else sint index)"
    by (simp add: start_def sint_llclamp)
  have en: "sint e = (if sint (index + ?c) < 0 then 0
                      else if sint L < sint (index + ?c) then sint L else sint (index + ?c))"
    by (simp add: e_def sint_llclamp)
  from sint_add_cases [OF c(1), of index]
  show ?thesis
  proof
    assume "sint (index + ?c) = sint index + sint ?c"
    then show ?thesis using st en c assms(1) by (auto split: if_splits)
  next
    assume "sint (index + ?c) < 0"
    then show ?thesis using st en c assms(1) by (auto split: if_splits)
  qed
qed

text \<open>
  Claim C8. For a result set of length \<open>L \<ge> 0\<close> and any 32-bit \<open>index\<close> and \<open>count\<close>,
  with \<open>start = clamp(index, 0, L)\<close> and \<open>end = clamp(index + clamp(count, 0, 100), 0, L)\<close>:
  \<open>getSlice\<close> returns the empty array when \<open>end \<le> start\<close>; otherwise it returns an array
  of length \<open>end\<close> whose entry at every position \<open>i\<close> in \<open>[start, end)\<close> is
  \<open>getSingle(i)\<close>, whose entries before \<open>start\<close> are undefined values, and in which at
  most 100 positions are populated.
\<close>

theorem getSlice_layout:
  assumes "0 \<le>s getLength r"
  shows "(let start = llclamp index 0 (getLength r);
              end = llclamp (index + llclamp count 0 MAX_ITEM_LIMIT) 0 (getLength r)
          in if end \<le>s start then getSlice r index count = LArray []
             else (\<exists>xs. getSlice r index count = LArray xs
                     \<and> int (length xs) = sint end
                     \<and> (\<forall>i::S32. start \<le>s i \<and> i <s end \<longrightarrow> xs ! nat (sint i) = getSingle r i)
                     \<and> (\<forall>j. j < nat (sint start) \<longrightarrow> xs ! j = Undef)
                     \<and> sint end - sint start \<le> 100))"
proof -
  let ?start = "llclamp index 0 (getLength r)"
  let ?end = "llclamp (index + llclamp count 0 MAX_ITEM_LIMIT) 0 (getLength r)"
  have L: "0 \<le> sint (getLength r)" using assms by (simp add: word_sle_eq)
  note b = slice_bounds [OF L, of index count]
  show ?thesis
  proof (cases "?end \<le>s ?start")
    case True
    then have "\<not> ?start <s ?end" by (simp add: word_sle_eq word_sless_alt)
    then have "getSlice r index count = LArray []" by (simp add: getSlice_def Let_def)
    with True show ?thesis by (simp add: Let_def)
  next
    case False
    then have lt: "?start <s ?end" by (simp add: word_sle_eq word_sless_alt)
    then have lt': "sint ?start < sint ?end" by (simp add: word_sless_alt)
    have pos: "0 < sint ?end" using lt' b by linarith
    let ?res0 = "array_set [] (nat (sint (?end - 1))) Undef"
    let ?xs = "getSlice_loop r ?start ?end ?res0"
    have res0: "?res0 = replicate (nat (sint ?end)) Undef"
    proof -
      have "nat (sint ?end) = Suc (nat (sint ?end - 1))" using pos by simp
      then show ?thesis
        by (simp add: array_set_def sint_minus_1 [OF pos] replicate_append_same)
    qed
    have len0: "length ?res0 = nat (sint ?end)" by (simp only: res0 length_replicate)
    have sp: "length ?xs = length ?res0
       \<and> (\<forall>j. j < nat (sint ?start) \<longrightarrow> ?xs ! j = ?res0 ! j)
       \<and> (\<forall>k::S32. sint ?start \<le> sint k \<and> sint k < sint ?end \<longrightarrow> ?xs ! nat (sint k) = getSingle r k)"
      using b lt' by (intro getSlice_loop_spec len0) simp_all
    have g: "getSlice r index count = LArray ?xs"
      using lt by (simp add: getSlice_def Let_def)
    have l: "int (length ?xs) = sint ?end" using sp len0 pos by simp
    have u: "\<forall>j. j < nat (sint ?start) \<longrightarrow> ?xs ! j = Undef"
    proof (intro allI impI)
      fix j assume j: "j < nat (sint ?start)"
      then have "j < nat (sint ?end)" using lt' by simp
      then have "?res0 ! j = Undef" by (simp only: res0 nth_replicate)
      with sp j show "?xs ! j = Undef" by simp
    qed
    have p: "\<forall>i::S32. ?start \<le>s i \<and> i <s ?end \<longrightarrow> ?xs ! nat (sint i) = getSingle r i"
      using sp by (simp add: word_sle_eq word_sless_alt)
    have "\<exists>xs. getSlice r index count = LArray xs
                     \<and> int (length xs) = sint ?end
                     \<and> (\<forall>i::S32. ?start \<le>s i \<and> i <s ?end \<longrightarrow> xs ! nat (sint i) = getSingle r i)
                     \<and> (\<forall>j. j < nat (sint ?start) \<longrightarrow> xs ! j = Undef)
                     \<and> sint ?end - sint ?start \<le> 100"
      using g l u p b by blast
    with False show ?thesis by (simp only: Let_def if_False)
  qed
qed

theorem getSlice_layout_witness:
  "0 \<le>s getLength \<lparr> getLength = 5, getSingle = (\<lambda>i. LInteger i) \<rparr>
   \<and> (\<exists>xs. getSlice \<lparr> getLength = 5, getSingle = (\<lambda>i. LInteger i) \<rparr> 3 500 = LArray xs
          \<and> int (length xs) = 5 \<and> xs ! 0 = Undef \<and> xs ! 2 = Undef
          \<and> xs ! 3 = LInteger 3 \<and> xs ! 4 = LInteger 4)"
proof -
  let ?r = "\<lparr> getLength = 5, getSingle = (\<lambda>i. LInteger i) \<rparr>"
  have h: "0 \<le>s getLength ?r" by (simp add: word_sle_eq)
  have s: "llclamp 3 0 (getLength ?r) = 3"
    by (simp add: llclamp_def word_sless_alt)
  have e: "llclamp (3 + llclamp 500 0 MAX_ITEM_LIMIT) 0 (getLength ?r) = 5"
    by (simp add: llclamp_def word_sless_alt MAX_ITEM_LIMIT_def)
  have n: "\<not> (5 :: S32) \<le>s 3" by (simp add: word_sle_eq)
  from getSlice_layout [OF h, of 3 500]
  obtain xs where xs: "getSlice ?r 3 500 = LArray xs" "int (length xs) = sint (5 :: S32)"
      "\<forall>i::S32. 3 \<le>s i \<and> i <s 5 \<longrightarrow> xs ! nat (sint i) = getSingle ?r i"
      "\<forall>j. j < nat (sint (3 :: S32)) \<longrightarrow> xs ! j = Undef"
    unfolding Let_def s e using n by auto
  have "xs ! nat (sint (3 :: S32)) = getSingle ?r 3" "xs ! nat (sint (4 :: S32)) = getSingle ?r 4"
    using xs(3) [rule_format, of 3] xs(3) [rule_format, of 4]
    by (simp_all add: word_sle_eq word_sless_alt)
  moreover have "xs ! 0 = Undef" "xs ! 2 = Undef" using xs(4) by simp_all
  ultimately show ?thesis using h xs(1,2) by simp
qed

section \<open>Properties of RlvHandler::handleSimulatorChat\<close>

text \<open>
  Claim C9. Whenever the message has at most 3 characters, or its first character is not
  the command prefix, or the chat type is not \<open>CHAT_TYPE_OWNER\<close>, or the sending object is
  a temporary attachment while temporary attachments are disabled, \<open>handleSimulatorChat\<close>
  returns false and leaves the message as it was; and the message differs at return only
  on executions that return true.
\<close>

theorem handleSimulatorChat_frame:
  "((length message \<le> 3 \<or> message ! 0 \<noteq> CmdPrefix env \<or> mChatType chat \<noteq> CHAT_TYPE_OWNER
      \<or> (\<exists>obj. chatObj = Some obj \<and> isTempAttachment obj \<and> \<not> enable_temp_attach env))
     \<longrightarrow> handleSimulatorChat env message chat chatObj = (False, message))
   \<and> (snd (handleSimulatorChat env message chat chatObj) \<noteq> message
        \<longrightarrow> fst (handleSimulatorChat env message chat chatObj))"
  by (auto simp: handleSimulatorChat_def Let_def split: option.splits)

theorem handleSimulatorChat_frame_witness:
  "handleSimulatorChat
      \<lparr> CmdPrefix = CHR ''@'', enable_temp_attach = False, show_debug_output = True,
        hide_unset_dupes = False,
        new_RlvCommand = (\<lambda>i s. \<lparr> getObjectID = i, isValid = True, isBlocked = False,
                                   getParamType = EParamType_Reply,
                                   run_processCommand = ECmdRet_Success \<rparr>),
        CommandDbgOut_get = (\<lambda>m es. concat (map fst es)) \<rparr>
      ''@Version=1'' \<lparr> mChatType = CHAT_TYPE_OWNER, mFromID = ''obj'' \<rparr>
      (Some \<lparr> isTempAttachment = True \<rparr>)
    = (False, ''@Version=1'')
   \<and> handleSimulatorChat
      \<lparr> CmdPrefix = CHR ''@'', enable_temp_attach = True, show_debug_output = True,
        hide_unset_dupes = False,
        new_RlvCommand = (\<lambda>i s. \<lparr> getObjectID = i, isValid = True, isBlocked = False,
                                   getParamType = EParamType_Reply,
                                   run_processCommand = ECmdRet_Success \<rparr>),
        CommandDbgOut_get = (\<lambda>m es. concat (map fst es)) \<rparr>
      ''@Version=1'' \<lparr> mChatType = CHAT_TYPE_OWNER, mFromID = ''obj'' \<rparr>
      (Some \<lparr> isTempAttachment = True \<rparr>)
    = (True, ''version=1'')"
proof -
  let ?env = "\<lambda>b. \<lparr> CmdPrefix = CHR ''@'', enable_temp_attach = b, show_debug_output = True,
        hide_unset_dupes = False,
        new_RlvCommand = (\<lambda>i s. \<lparr> getObjectID = i, isValid = True, isBlocked = False,
                                   getParamType = EParamType_Reply,
                                   run_processCommand = ECmdRet_Success \<rparr>),
        CommandDbgOut_get = (\<lambda>m es. concat (map fst es)) \<rparr>"
  let ?chat = "\<lparr> mChatType = CHAT_TYPE_OWNER, mFromID = ''obj'' \<rparr>"
  let ?obj = "Some \<lparr> isTempAttachment = True \<rparr>"
  have a: "handleSimulatorChat (?env False) ''@Version=1'' ?chat ?obj = (False, ''@Version=1'')"
    using handleSimulatorChat_frame [of "''@Version=1''" "?env False" ?chat ?obj] by simp
  have b: "handleSimulatorChat (?env True) ''@Version=1'' ?chat ?obj = (True, ''version=1'')"
    by code_simp
  from a b show ?thesis by simp
qed

section \<open>Properties of the stop exceptions\<close>

text \<open>
  Claim C5. Each of \<open>Killed\<close>, \<open>Stopping\<close>, \<open>Stopped\<close> and \<open>Shutdown\<close> is caught by a handler
  for \<open>Stop\<close>; \<open>Stop\<close> is an \<open>LLContinueError\<close>; hence whatever a \<open>Stop\<close> handler
  catches belongs to the \<open>LLContinueError\<close> category, the one that does not crash the
  viewer.
\<close>

theorem stop_family:
  "is_a Killed Stop \<and> is_a Stopping Stop \<and> is_a Stopped Stop \<and> is_a Shutdown Stop
   \<and> is_a Stop LLContinueError
   \<and> (\<forall>t. is_a t Stop \<longrightarrow> is_a t LLContinueError)"
proof -
  have four: "is_a Killed Stop" "is_a Stopping Stop" "is_a Stopped Stop" "is_a Shutdown Stop"
    by (simp_all add: is_a.simps)
  have cont: "is_a Stop LLContinueError"
    by (simp add: is_a.simps)
  have all: "\<forall>t. is_a t Stop \<longrightarrow> is_a t LLContinueError"
  proof (intro allI impI)
    fix t assume "is_a t Stop"
    then show "is_a t LLContinueError"
      by (cases t) (simp_all add: is_a.simps)
  qed
  from four cont all show ?thesis by blast
qed

theorem stop_family_witness:
  "is_a Shutdown Stop \<and> is_a Shutdown LLContinueError \<and> \<not> is_a (Foreign ''std::runtime_error'') Stop"
proof -
  have "is_a Shutdown Stop" using stop_family by blast
  moreover have "is_a Shutdown LLContinueError" using stop_family by blast
  moreover have "\<not> is_a (Foreign ''std::runtime_error'') Stop" by (simp add: is_a.simps)
  ultimately show ?thesis by blast
qed

section \<open>Properties of checkStop\<close>

lemma stop_signal_cases:
  "stop_signal d ph =
     (if ph = Phase_Shutdown then Some \<lparr> ex_type = Shutdown, ex_what = ''shutdown'' \<rparr>
      else if ph = Phase_Stopped then Some \<lparr> ex_type = Stopped, ex_what = ''stopped'' \<rparr>
      else if ph = Phase_Stopping then Some \<lparr> ex_type = Stopping, ex_what = ''stopping'' \<rparr>
      else if mKilledBy d \<noteq> [] then Some \<lparr> ex_type = Killed, ex_what = mKilledBy d \<rparr>
      else None)"
  by (cases ph) (simp_all add: stop_signal_def)

text \<open>
  Claim C3. When \<open>checkStop\<close> is called by a fiber whose kill flag is set, or while a
  global stop phase is in effect, there is a stop interrupt of the type that belongs to
  the condition such that: without a cleanup, \<open>checkStop\<close> throws it; with a cleanup, the
  cleanup runs first (the world at the throw is the one the cleanup left) and then the
  interrupt is thrown, unless the cleanup itself throws, in which case the cleanup's
  exception is the one that leaves \<open>checkStop\<close>.
\<close>

theorem checkStop_cleanup_first:
  assumes "mKilledBy d \<noteq> [] \<or> ph \<noteq> Phase_Running"
  shows "\<exists>interrupt.
           stop_signal d ph = Some interrupt
           \<and> is_a (ex_type interrupt) Stop
           \<and> ex_type interrupt =
               (case ph of Phase_Running \<Rightarrow> Killed | Phase_Stopping \<Rightarrow> Stopping
                         | Phase_Stopped \<Rightarrow> Stopped | Phase_Shutdown \<Rightarrow> Shutdown)
           \<and> checkStop None d ph w = (Some interrupt, w)
           \<and> (\<forall>f. checkStop (Some f) d ph w =
                 (case f w of (Some e, w') \<Rightarrow> (Some e, w') | (None, w') \<Rightarrow> (Some interrupt, w')))"
proof -
  obtain interrupt where i: "stop_signal d ph = Some interrupt"
    using assms by (cases ph) (auto simp: stop_signal_def)
  have ty: "ex_type interrupt =
               (case ph of Phase_Running \<Rightarrow> Killed | Phase_Stopping \<Rightarrow> Stopping
                         | Phase_Stopped \<Rightarrow> Stopped | Phase_Shutdown \<Rightarrow> Shutdown)"
    using i by (cases ph) (auto simp: stop_signal_def split: if_splits)
  have fam: "is_a (ex_type interrupt) Stop"
    by (cases ph) (simp_all add: ty is_a.simps)
  have none: "checkStop None d ph w = (Some interrupt, w)"
    by (simp add: checkStop_def i)
  have some: "\<forall>f. checkStop (Some f) d ph w =
                 (case f w of (Some e, w') \<Rightarrow> (Some e, w') | (None, w') \<Rightarrow> (Some interrupt, w'))"
    by (simp add: checkStop_def i)
  from i ty fam none some show ?thesis by blast
qed

theorem checkStop_cleanup_first_witness:
  "mKilledBy (new_CoroData ''job0'' 0 \<lparr> mKilledBy := ''boss'' \<rparr>) \<noteq> []
   \<and> checkStop (Some (\<lambda>w. (None, w @ [''queue closed''])))
        (new_CoroData ''job0'' 0 \<lparr> mKilledBy := ''boss'' \<rparr>) Phase_Running []
      = (Some \<lparr> ex_type = Killed, ex_what = ''boss'' \<rparr>, [''queue closed''])
   \<and> checkStop (Some (\<lambda>w. (Some \<lparr> ex_type = Foreign ''std::bad_alloc'', ex_what = ''oom'' \<rparr>, w)))
        (new_CoroData ''job0'' 0 \<lparr> mKilledBy := ''boss'' \<rparr>) Phase_Running ([] :: string list)
      = (Some \<lparr> ex_type = Foreign ''std::bad_alloc'', ex_what = ''oom'' \<rparr>, [])"
proof -
  let ?d = "new_CoroData ''job0'' 0 \<lparr> mKilledBy := ''boss'' \<rparr>"
  have h: "mKilledBy ?d \<noteq> [] \<or> Phase_Running \<noteq> Phase_Running"
    by (simp add: new_CoroData_def)
  from checkStop_cleanup_first [OF h, of "[] :: string list"]
  obtain interrupt where i: "stop_signal ?d Phase_Running = Some interrupt"
    and f: "\<forall>f. checkStop (Some f) ?d Phase_Running ([] :: string list) =
                 (case f [] of (Some e, w') \<Rightarrow> (Some e, w') | (None, w') \<Rightarrow> (Some interrupt, w'))"
    by blast
  have "interrupt = \<lparr> ex_type = Killed, ex_what = ''boss'' \<rparr>"
    using i by (simp add: stop_signal_def new_CoroData_def)
  moreover have "mKilledBy ?d \<noteq> []" by (simp add: new_CoroData_def)
  ultimately show ?thesis using f by simp
qed

section \<open>Properties of the registry lookup\<close>

lemma getInstance_None_iff:
  "(getInstance name s = None) = (name \<notin> set (live_names s))"
  by (auto simp: getInstance_def live_names_def find_None_iff)

lemma find_map_same:
  "(\<And>x. P (f x) = P x) \<Longrightarrow> find P (map f xs) = map_option f (find P xs)"
  by (induction xs) simp_all

section \<open>Properties of TempStatus\<close>

lemma exec_keeps_status:
  "\<not> is_set st \<Longrightarrow> getStatus (fst (snd (exec st (d, log)))) = getStatus d"
  by (cases st)
     (simp_all add: TempStatus_ctor_def TempStatus_dtor_def setStatus_def getStatus_def
        split: prod.splits)

lemma exec_block_keeps_status:
  "list_all (\<lambda>st. \<not> is_set st) sts \<Longrightarrow>
   getStatus (fst (snd (exec_block sts (d, log)))) = getStatus d"
proof (induction sts arbitrary: d log)
  case Nil
  show ?case by simp
next
  case (Cons st sts)
  obtain r d1 log1 where e: "exec st (d, log) = (r, d1, log1)" by (cases "exec st (d, log)")
  have k: "getStatus d1 = getStatus d"
    using exec_keeps_status [of st d log] Cons.prems e by simp
  show ?case
  proof (cases r)
    case None
    then show ?thesis using Cons.IH [of d1 log1] Cons.prems e k by simp
  next
    case (Some x)
    then show ?thesis using e k by simp
  qed
qed

text \<open>
  Claim C6. For every status \<open>s\<close> and every record with prior status \<open>p\<close>: right after a
  \<open>TempStatus\<close> guard is constructed with \<open>s\<close>, \<open>getStatus()\<close> is \<open>s\<close>; it is \<open>s\<close> again after
  any initial part of the guarded block that makes no direct call of \<open>setStatus\<close>, however
  that part ends; in particular it is \<open>s\<close> again once a nested guard has been destroyed;
  and when the guard is destroyed, at the end of its block or by an exception leaving it,
  \<open>getStatus()\<close> is \<open>p\<close> again, whatever the block did.
\<close>

theorem TempStatus_scoped:
  "getStatus (snd (TempStatus_ctor status d)) = status
   \<and> (\<forall>pre post. body = pre @ post \<and> list_all (\<lambda>st. \<not> is_set st) pre \<longrightarrow>
         getStatus (fst (snd (exec_block pre (snd (TempStatus_ctor status d), log)))) = status)
   \<and> (\<forall>inner nested.
         getStatus (fst (snd (exec (Guarded inner nested) (snd (TempStatus_ctor status d), log))))
           = status)
   \<and> getStatus (fst (snd (exec (Guarded status body) (d, log)))) = getStatus d"
proof -
  have a: "getStatus (snd (TempStatus_ctor status d)) = status"
    by (simp add: TempStatus_ctor_def setStatus_def getStatus_def)
  have b: "\<forall>pre post. body = pre @ post \<and> list_all (\<lambda>st. \<not> is_set st) pre \<longrightarrow>
         getStatus (fst (snd (exec_block pre (snd (TempStatus_ctor status d), log)))) = status"
    using a by (simp add: exec_block_keeps_status)
  have c: "getStatus (fst (snd (exec (Guarded status body) (d, log)))) = getStatus d"
    by (rule exec_keeps_status) simp
  have n: "\<forall>inner nested.
         getStatus (fst (snd (exec (Guarded inner nested) (snd (TempStatus_ctor status d), log))))
           = status"
    using a exec_keeps_status [of "Guarded _ _"] by simp
  from a b n c show ?thesis by blast
qed

theorem TempStatus_scoped_witness:
  "list_all (\<lambda>st. \<not> is_set st)
      [CallGetStatus,
       Guarded ''parsing'' [CallSetStatus ''halfway'',
                            ThrowStmt \<lparr> ex_type = Stopped, ex_what = ''stopped'' \<rparr>]]
   \<and> getStatus (fst (snd (exec_block
        [CallGetStatus,
         Guarded ''parsing'' [CallSetStatus ''halfway'',
                              ThrowStmt \<lparr> ex_type = Stopped, ex_what = ''stopped'' \<rparr>]]
        (snd (TempStatus_ctor ''loading'' (new_CoroData ''job0'' 0 \<lparr> mStatus := ''idle'' \<rparr>)), []))))
      = ''loading''
   \<and> getStatus (fst (snd (exec
        (Guarded ''loading''
          ([CallGetStatus,
            Guarded ''parsing'' [CallSetStatus ''halfway'',
                                 ThrowStmt \<lparr> ex_type = Stopped, ex_what = ''stopped'' \<rparr>]]
           @ [CallGetStatus]))
        (new_CoroData ''job0'' 0 \<lparr> mStatus := ''idle'' \<rparr>, []))))
      = ''idle''"
proof -
  let ?pre = "[CallGetStatus,
       Guarded ''parsing'' [CallSetStatus ''halfway'',
                            ThrowStmt \<lparr> ex_type = Stopped, ex_what = ''stopped'' \<rparr>]]"
  let ?d = "new_CoroData ''job0'' 0 \<lparr> mStatus := ''idle'' \<rparr>"
  note t = TempStatus_scoped [of "''loading''" ?d "?pre @ [CallGetStatus]" "[]"]
  note t2 = t [THEN conjunct2, THEN conjunct1, rule_format, of ?pre "[CallGetStatus]"]
  note t4 = t [THEN conjunct2, THEN conjunct2, THEN conjunct2]
  have h: "list_all (\<lambda>st. \<not> is_set st) ?pre" by simp
  have p: "getStatus ?d = ''idle''" by (simp add: getStatus_def new_CoroData_def)
  from t2 h have "getStatus (fst (snd (exec_block ?pre (snd (TempStatus_ctor ''loading'' ?d), []))))
      = ''loading''" by blast
  moreover from t4 p have "getStatus (fst (snd (exec (Guarded ''loading'' (?pre @ [CallGetStatus])) (?d, []))))
      = ''idle''" by simp
  ultimately show ?thesis using h by blast
qed

section \<open>Properties of running a body\<close>

lemma run_body_acts:
  "run_body name (map Act fs @ rest) s
     = run_body name rest (s \<lparr> world := foldl (\<lambda>w f. f w) (world s) fs \<rparr>)"
  by (induction fs arbitrary: s) simp_all

lemma run_body_frame:
  "\<exists>w. snd (run_body name body s) = s \<lparr> world := w \<rparr>"
proof (induction name body s rule: run_body.induct)
  case (1 name s)
  have "s = s \<lparr> world := world s \<rparr>" by simp
  then show ?case by (metis run_body.simps(1) snd_conv)
next
  case (2 name f rest s)
  then show ?case by auto
next
  case (3 name rest s)
  have "s = s \<lparr> world := world s \<rparr>" by simp
  then show ?case by (metis run_body.simps(3) snd_conv)
next
  case (4 name e rest s)
  have "s = s \<lparr> world := world s \<rparr>" by simp
  then show ?case by (metis run_body.simps(4) snd_conv)
next
  case (5 name cleanup rest s)
  show ?case
  proof (cases "getInstance name s")
    case None
    then show ?thesis using "5.IH"(1) by simp
  next
    case (Some d)
    obtain r w' where c: "checkStop cleanup d (phase s) (world s) = (r, w')"
      by (cases "checkStop cleanup d (phase s) (world s)")
    show ?thesis
    proof (cases r)
      case None
      then show ?thesis using "5.IH"(2) [OF Some c [symmetric]] Some c by auto
    next
      case (Some e)
      then show ?thesis using \<open>getInstance name s = Some d\<close> c by auto
    qed
  qed
qed

lemma run_body_acts_only:
  "run_body name (map Act fs) s = (Completed, s \<lparr> world := foldl (\<lambda>w f. f w) (world s) fs \<rparr>)"
  using run_body_acts [of name fs "[]" s] by simp

section \<open>Properties of histories\<close>

lemma launch_returns: "fst (launch prefix body s) = Inr (fst (generateDistinctName prefix s))"
  by (simp add: launch_def Let_def split: prod.splits)

lemma raised_Cons: "raised (r # rs) = raised [r] @ raised rs"
  by (cases r) simp_all

section \<open>Properties of name generation\<close>

lemma find_unused_spec:
  "c \<le> find_unused p live c
   \<and> p @ decimal (find_unused p live c) \<notin> set live
   \<and> (\<forall>m. c \<le> m \<and> m < find_unused p live c \<longrightarrow> p @ decimal m \<in> set live)"
proof (induction p live c rule: find_unused.induct)
  case (1 prefix live n)
  show ?case
  proof (cases "prefix @ decimal n \<in> set live")
    case False
    then have "find_unused prefix live n = n" by (subst find_unused.simps) simp
    with False show ?thesis by auto
  next
    case True
    then have u: "find_unused prefix live n = find_unused prefix live (Suc n)"
      by (subst find_unused.simps) simp
    have ih: "Suc n \<le> find_unused prefix live (Suc n)
       \<and> prefix @ decimal (find_unused prefix live (Suc n)) \<notin> set live
       \<and> (\<forall>m. Suc n \<le> m \<and> m < find_unused prefix live (Suc n) \<longrightarrow>
              prefix @ decimal m \<in> set live)"
      using "1.IH" [OF True] .
    have "\<forall>m. n \<le> m \<and> m < find_unused prefix live (Suc n) \<longrightarrow>
              prefix @ decimal m \<in> set live"
    proof (intro allI impI)
      fix m assume m: "n \<le> m \<and> m < find_unused prefix live (Suc n)"
      show "prefix @ decimal m \<in> set live"
      proof (cases "m = n")
        case True
        with \<open>prefix @ decimal n \<in> set live\<close> show ?thesis by simp
      next
        case False
        with m have "Suc n \<le> m" by simp
        with m ih show ?thesis by blast
      qed
    qed
    with ih show ?thesis unfolding u by auto
  qed
qed

lemma settle_unique: "unique (settle name (out, s)) = unique s"
  by (cases out) (simp_all add: erase_record_def saveException_def)

lemma run_body_unique: "unique (snd (run_body name body s)) = unique s"
proof -
  obtain w where "snd (run_body name body s) = s \<lparr> world := w \<rparr>"
    using run_body_frame [of name body s] by blast
  then show ?thesis by simp
qed

lemma toplevel_unique: "unique (toplevel name body s) = unique s"
proof -
  obtain out s' where r: "run_body name body s = (out, s')" by (cases "run_body name body s")
  have "unique s' = unique s" using run_body_unique [of name body s] r by simp
  then show ?thesis using settle_unique [of name out s'] by (simp add: toplevel_def r)
qed

lemma launch_unique:
  "unique (snd (launch prefix body s)) = Suc (find_unused prefix (live_names s) (unique s))"
  by (simp add: launch_def generateDistinctName_def Let_def toplevel_unique)

lemma launch_name:
  "fst (launch prefix body s)
     = Inr (prefix @ decimal (find_unused prefix (live_names s) (unique s)))"
  by (simp add: launch_def generateDistinctName_def Let_def)

lemma resume_unique: "unique (resume name s) = unique s"
proof (cases "map_of (suspended s) name")
  case None
  then show ?thesis by (simp add: resume_def)
next
  case (Some rest)
  let ?s0 = "s \<lparr> suspended := filter (\<lambda>p. fst p \<noteq> name) (suspended s) \<rparr>"
  have "resume name s = toplevel name rest ?s0"
    by (simp add: resume_def Some toplevel_def)
  then show ?thesis using toplevel_unique [of name rest ?s0] by simp
qed

lemma step_unique: "unique s \<le> unique (snd (step ev s))"
proof (cases ev)
  case (Launch prefix body)
  have "unique s \<le> find_unused prefix (live_names s) (unique s)"
    using find_unused_spec [of "unique s" prefix "live_names s"] by blast
  then show ?thesis
    using Launch launch_unique [of prefix body s]
    by (cases "launch prefix body s") (auto split: sum.splits)
next
  case (Resume name)
  then show ?thesis by (simp add: resume_unique)
next
  case (Killreq caller name)
  then show ?thesis
    by (cases "getInstance name s") (simp_all add: killreq_def notify_stop_def)
next
  case Rethrow
  then show ?thesis by (cases "mExceptionQueue s") (simp_all add: rethrow_def)
next
  case (SetPhase ph)
  then show ?thesis by (simp add: set_phase_def notify_stop_def)
next
  case (GetStopListener caller consumer cleanup)
  then show ?thesis by (simp add: getStopListener_def)
qed

lemma run_append_fst:
  "fst (run (ev # evs) s) = fst (step ev s) # fst (run evs (snd (step ev s)))"
  by (simp split: prod.splits)

lemma run_unique: "unique s \<le> unique (snd (run evs s))"
proof (induction evs arbitrary: s)
  case Nil
  show ?case by simp
next
  case (Cons ev evs)
  have "snd (run (ev # evs) s) = snd (run evs (snd (step ev s)))"
    by (simp split: prod.splits)
  then show ?case
    using Cons.IH [of "snd (step ev s)"] step_unique [of s ev] by simp
qed

lemma launched_with_bound:
  "name \<in> set (launched_with prefix evs (fst (run evs s))) \<Longrightarrow>
   \<exists>n. unique s \<le> n \<and> name = prefix @ decimal n"
proof (induction evs arbitrary: s)
  case Nil
  then show ?case by simp
next
  case (Cons ev evs)
  let ?s1 = "snd (step ev s)"
  have mono: "unique s \<le> unique ?s1" by (rule step_unique)
  have rest: "\<exists>n. unique s \<le> n \<and> name = prefix @ decimal n"
    if "name \<in> set (launched_with prefix evs (fst (run evs ?s1)))"
  proof -
    from Cons.IH [OF that] obtain n where "unique ?s1 \<le> n" "name = prefix @ decimal n"
      by blast
    with mono show ?thesis by (intro exI [of _ n]) simp
  qed
  show ?case
  proof (cases ev)
    case (Launch p body)
    let ?n = "find_unused p (live_names s) (unique s)"
    have r: "fst (step ev s) = RetName (p @ decimal ?n)"
      using Launch launch_name [of p body s] by (cases "launch p body s") simp
    have lw: "launched_with prefix (ev # evs) (fst (run (ev # evs) s))
        = (if p = prefix then (p @ decimal ?n) # launched_with prefix evs (fst (run evs ?s1))
           else launched_with prefix evs (fst (run evs ?s1)))"
      unfolding run_append_fst r using Launch by simp
    show ?thesis
    proof (cases "p = prefix \<and> name = p @ decimal ?n")
      case True
      moreover have "unique s \<le> ?n"
        using find_unused_spec [of "unique s" p "live_names s"] by blast
      ultimately show ?thesis by blast
    next
      case False
      then have "name \<in> set (launched_with prefix evs (fst (run evs ?s1)))"
        using Cons.prems unfolding lw by (auto split: if_splits)
      then show ?thesis by (rule rest)
    qed
  next
    case (Resume x)
    then have "launched_with prefix (ev # evs) (fst (run (ev # evs) s))
        = launched_with prefix evs (fst (run evs ?s1))"
      unfolding run_append_fst by simp
    with Cons.prems show ?thesis using rest by simp
  next
    case (Killreq c x)
    then have "launched_with prefix (ev # evs) (fst (run (ev # evs) s))
        = launched_with prefix evs (fst (run evs ?s1))"
      unfolding run_append_fst by (simp split: prod.splits)
    with Cons.prems show ?thesis using rest by simp
  next
    case Rethrow
    then have "launched_with prefix (ev # evs) (fst (run (ev # evs) s))
        = launched_with prefix evs (fst (run evs ?s1))"
      unfolding run_append_fst by (simp split: prod.splits option.splits)
    with Cons.prems show ?thesis using rest by simp
  next
    case (SetPhase ph)
    then have "launched_with prefix (ev # evs) (fst (run (ev # evs) s))
        = launched_with prefix evs (fst (run evs ?s1))"
      unfolding run_append_fst by simp
    with Cons.prems show ?thesis using rest by simp
  next
    case (GetStopListener c x f)
    then have "launched_with prefix (ev # evs) (fst (run (ev # evs) s))
        = launched_with prefix evs (fst (run evs ?s1))"
      unfolding run_append_fst by simp
    with Cons.prems show ?thesis using rest by simp
  qed
qed

lemma launched_with_distinct:
  "distinct (launched_with prefix evs (fst (run evs s)))"
proof (induction evs arbitrary: s)
  case Nil
  show ?case by simp
next
  case (Cons ev evs)
  let ?s1 = "snd (step ev s)"
  have ih: "distinct (launched_with prefix evs (fst (run evs ?s1)))" by (rule Cons.IH)
  show ?case
  proof (cases ev)
    case (Launch p body)
    let ?n = "find_unused p (live_names s) (unique s)"
    have r: "fst (step ev s) = RetName (p @ decimal ?n)"
      using Launch launch_name [of p body s] by (cases "launch p body s") simp
    have u: "unique ?s1 = Suc ?n"
      using Launch launch_unique [of p body s]
      by (cases "launch p body s") (auto split: sum.splits)
    have lw: "launched_with prefix (ev # evs) (fst (run (ev # evs) s))
        = (if p = prefix then (p @ decimal ?n) # launched_with prefix evs (fst (run evs ?s1))
           else launched_with prefix evs (fst (run evs ?s1)))"
      unfolding run_append_fst r using Launch by simp
    have fresh: "prefix @ decimal ?n \<notin> set (launched_with prefix evs (fst (run evs ?s1)))"
    proof
      assume "prefix @ decimal ?n \<in> set (launched_with prefix evs (fst (run evs ?s1)))"
      from launched_with_bound [OF this] obtain m where
        m: "unique ?s1 \<le> m" "prefix @ decimal ?n = prefix @ decimal m" by blast
      then have "?n = m" by (simp add: decimal_inj)
      with m(1) u show False by simp
    qed
    show ?thesis unfolding lw using ih fresh by auto
  next
    case (Resume x)
    then have "launched_with prefix (ev # evs) (fst (run (ev # evs) s))
        = launched_with prefix evs (fst (run evs ?s1))"
      unfolding run_append_fst by simp
    with ih show ?thesis by simp
  next
    case (Killreq c x)
    then have "launched_with prefix (ev # evs) (fst (run (ev # evs) s))
        = launched_with prefix evs (fst (run evs ?s1))"
      unfolding run_append_fst by (simp split: prod.splits)
    with ih show ?thesis by simp
  next
    case Rethrow
    then have "launched_with prefix (ev # evs) (fst (run (ev # evs) s))
        = launched_with prefix evs (fst (run evs ?s1))"
      unfolding run_append_fst by (simp split: prod.splits option.splits)
    with ih show ?thesis by simp
  next
    case (SetPhase ph)
    then have "launched_with prefix (ev # evs) (fst (run (ev # evs) s))
        = launched_with prefix evs (fst (run evs ?s1))"
      unfolding run_append_fst by simp
    with ih show ?thesis by simp
  next
    case (GetStopListener c x f)
    then have "launched_with prefix (ev # evs) (fst (run (ev # evs) s))
        = launched_with prefix evs (fst (run evs ?s1))"
      unfolding run_append_fst by simp
    with ih show ?thesis by simp
  qed
qed

lemma settle_live_distinct:
  "distinct (live_names s) \<Longrightarrow> distinct (live_names (settle name (out, s)))"
  by (cases out) (simp_all add: live_names_def erase_record_def saveException_def distinct_map_filter)

lemma toplevel_live_distinct:
  assumes "distinct (live_names s)"
  shows "distinct (live_names (toplevel name body s))"
proof -
  obtain out s' where r: "run_body name body s = (out, s')" by (cases "run_body name body s")
  obtain w where "snd (run_body name body s) = s \<lparr> world := w \<rparr>"
    using run_body_frame [of name body s] by blast
  then have "live_names s' = live_names s" using r by (simp add: live_names_def)
  then show ?thesis
    using settle_live_distinct [of s' name out] assms by (simp add: toplevel_def r)
qed

lemma generated_name_fresh:
  "fst (generateDistinctName prefix s) \<notin> set (live_names s)"
  using find_unused_spec [of "unique s" prefix "live_names s"]
  by (simp add: generateDistinctName_def Let_def)

lemma launch_live_distinct:
  assumes "distinct (live_names s)"
  shows "distinct (live_names (snd (launch prefix body s)))"
proof -
  let ?name = "fst (generateDistinctName prefix s)"
  let ?s1 = "snd (generateDistinctName prefix s)"
  let ?s2 = "?s1 \<lparr> instances := instances ?s1 @ [new_CoroData ?name (now ?s1)] \<rparr>"
  have l: "snd (launch prefix body s) = toplevel ?name body ?s2"
    by (simp add: launch_def Let_def split: prod.splits)
  have "live_names ?s2 = live_names s @ [?name]"
    by (simp add: live_names_def generateDistinctName_def Let_def new_CoroData_def)
  then have "distinct (live_names ?s2)"
    using assms generated_name_fresh [of prefix s] by simp
  then show ?thesis unfolding l by (rule toplevel_live_distinct)
qed

lemma resume_live_distinct:
  assumes "distinct (live_names s)"
  shows "distinct (live_names (resume name s))"
proof (cases "map_of (suspended s) name")
  case None
  then show ?thesis using assms by (simp add: resume_def)
next
  case (Some rest)
  let ?s0 = "s \<lparr> suspended := filter (\<lambda>p. fst p \<noteq> name) (suspended s) \<rparr>"
  have r: "resume name s = toplevel name rest ?s0"
    by (simp add: resume_def Some toplevel_def)
  have "distinct (live_names ?s0)" using assms by (simp add: live_names_def)
  then show ?thesis unfolding r by (rule toplevel_live_distinct)
qed

lemma killreq_live_names: "live_names (snd (killreq caller name s)) = live_names s"
  by (cases "getInstance name s")
     (simp_all add: killreq_def notify_stop_def live_names_def comp_def)

lemma step_live_distinct:
  assumes "distinct (live_names s)"
  shows "distinct (live_names (snd (step ev s)))"
proof (cases ev)
  case (Launch prefix body)
  then show ?thesis
    using launch_live_distinct [OF assms, of prefix body]
    by (cases "launch prefix body s") (auto split: sum.splits)
next
  case (Resume name)
  then show ?thesis using resume_live_distinct [OF assms] by simp
next
  case (Killreq caller name)
  then show ?thesis
    using killreq_live_names [of caller name s] assms
    by (cases "killreq caller name s") simp
next
  case Rethrow
  then show ?thesis
    using assms by (cases "mExceptionQueue s") (simp_all add: rethrow_def live_names_def)
next
  case (SetPhase ph)
  then show ?thesis using assms by (simp add: live_names_def set_phase_def notify_stop_def)
next
  case (GetStopListener caller consumer cleanup)
  then show ?thesis using assms by (simp add: live_names_def getStopListener_def)
qed

lemma run_live_distinct:
  "distinct (live_names s) \<Longrightarrow> distinct (live_names (snd (run evs s)))"
proof (induction evs arbitrary: s)
  case Nil
  then show ?case by simp
next
  case (Cons ev evs)
  have "snd (run (ev # evs) s) = snd (run evs (snd (step ev s)))"
    by (simp split: prod.splits)
  then show ?case
    using Cons.IH [OF step_live_distinct [OF Cons.prems, of ev]] by simp
qed

text \<open>
  Claim C1. Over any history of calls, from any state of the registry, the names returned
  by the launches with one prefix are pairwise distinct. The generated name is the prefix
  followed by the smallest integer, from the registry's running counter on, such that
  prefix + integer is not the name of a live record; it is not the name of any live
  record; it is the name \<open>launch\<close> returns; and the names of the live records stay
  pairwise distinct throughout.
\<close>

theorem launch_names_distinct:
  "distinct (launched_with prefix evs (fst (run evs s)))
   \<and> (\<exists>n. fst (generateDistinctName prefix s) = prefix @ decimal n
          \<and> unique s \<le> n
          \<and> (\<forall>m. unique s \<le> m \<and> m < n \<longrightarrow> prefix @ decimal m \<in> set (live_names s)))
   \<and> fst (generateDistinctName prefix s) \<notin> set (live_names s)
   \<and> fst (launch prefix body s) = Inr (fst (generateDistinctName prefix s))
   \<and> (distinct (live_names s) \<longrightarrow> distinct (live_names (snd (run evs s))))"
proof -
  let ?n = "find_unused prefix (live_names s) (unique s)"
  have g: "fst (generateDistinctName prefix s) = prefix @ decimal ?n"
    by (simp add: generateDistinctName_def Let_def)
  have least: "\<exists>n. fst (generateDistinctName prefix s) = prefix @ decimal n
          \<and> unique s \<le> n
          \<and> (\<forall>m. unique s \<le> m \<and> m < n \<longrightarrow> prefix @ decimal m \<in> set (live_names s))"
    using find_unused_spec [of "unique s" prefix "live_names s"] g by blast
  have ret: "fst (launch prefix body s) = Inr (fst (generateDistinctName prefix s))"
    by (simp add: launch_name g)
  from launched_with_distinct [of prefix evs s] least generated_name_fresh [of prefix s] ret
       run_live_distinct [of s evs]
  show ?thesis by blast
qed

theorem launch_names_distinct_witness:
  "distinct (live_names
      \<lparr> instances = [new_CoroData ''job1'' 0], mExceptionQueue = [], mStackSize = 0, unique = 0,
        phase = Phase_Running, suspended = [(''job1'', [])], world = (), now = 0, mStopListeners = [] \<rparr>)
   \<and> launched_with ''job'' [Launch ''job'' [Suspend], Launch ''job'' []]
       (fst (run [Launch ''job'' [Suspend], Launch ''job'' []]
         \<lparr> instances = [new_CoroData ''job1'' 0], mExceptionQueue = [], mStackSize = 0, unique = 0,
           phase = Phase_Running, suspended = [(''job1'', [])], world = (), now = 0, mStopListeners = [] \<rparr>))
       = [''job0'', ''job2'']
   \<and> distinct (live_names (snd (run [Launch ''job'' [Suspend], Launch ''job'' []]
         \<lparr> instances = [new_CoroData ''job1'' 0], mExceptionQueue = [], mStackSize = 0, unique = 0,
           phase = Phase_Running, suspended = [(''job1'', [])], world = (), now = 0, mStopListeners = [] \<rparr>)))"
proof -
  let ?s = "\<lparr> instances = [new_CoroData ''job1'' 0], mExceptionQueue = [], mStackSize = 0, unique = 0,
        phase = Phase_Running, suspended = [(''job1'', [])], world = (), now = 0, mStopListeners = [] \<rparr>"
  let ?evs = "[Launch ''job'' [Suspend], Launch ''job'' []]"
  have h: "distinct (live_names ?s)" by (simp add: live_names_def)
  have d: "distinct (live_names (snd (run ?evs ?s)))"
    using launch_names_distinct [of "''job''" ?evs ?s "[]"] h by blast
  have r: "fst (run ?evs ?s) = [RetName ''job0'', RetName ''job2'']"
    by code_simp
  have e: "launched_with ''job'' ?evs (fst (run ?evs ?s)) = [''job0'', ''job2'']"
    unfolding r by simp
  from h d e show ?thesis by blast
qed

section \<open>Properties of the first run of a body\<close>

lemma launch_unfold:
  "launch prefix body s
     = (Inr (fst (generateDistinctName prefix s)),
        toplevel (fst (generateDistinctName prefix s)) body (launch_state prefix s))"
  by (simp add: launch_def launch_state_def Let_def split: prod.splits)

lemma resume_unfold:
  "map_of (suspended s) name = Some rest \<Longrightarrow>
   resume name s = toplevel name rest (resume_state name s)"
  by (simp add: resume_def resume_state_def toplevel_def)

lemma launch_state_fields:
  "world (launch_state prefix s) = world s"
  "phase (launch_state prefix s) = phase s"
  "suspended (launch_state prefix s) = suspended s"
  "mExceptionQueue (launch_state prefix s) = mExceptionQueue s"
  "live_names (launch_state prefix s) = live_names s @ [fst (generateDistinctName prefix s)]"
  by (simp_all add: launch_state_def generateDistinctName_def Let_def live_names_def
      new_CoroData_def)

lemma find_append_fresh:
  "\<forall>x \<in> set xs. \<not> P x \<Longrightarrow> find P (xs @ ys) = find P ys"
  by (induction xs) simp_all

lemma getInstance_launch_state:
  "getInstance (fst (generateDistinctName prefix s)) (launch_state prefix s)
     = Some (new_CoroData (fst (generateDistinctName prefix s)) (now s))"
proof -
  let ?name = "fst (generateDistinctName prefix s)"
  have fresh: "\<forall>d \<in> set (instances s). \<not> mName d = ?name"
    using generated_name_fresh [of prefix s] by (force simp: live_names_def)
  have "instances (launch_state prefix s) = instances s @ [new_CoroData ?name (now s)]"
    by (simp add: launch_state_def generateDistinctName_def Let_def)
  then show ?thesis
    using find_append_fresh [OF fresh, of "[new_CoroData ?name (now s)]"]
    by (simp add: getInstance_def new_CoroData_def)
qed

lemma must_stop_launch_state:
  "must_stop (fst (generateDistinctName prefix s)) (launch_state prefix s)
     = (phase s \<noteq> Phase_Running)"
  by (cases "phase s")
     (simp_all add: must_stop_def getInstance_launch_state launch_state_fields stop_signal_def
        new_CoroData_def)

lemma must_stop_world: "must_stop name (s \<lparr> world := w \<rparr>) = must_stop name s"
  by (simp add: must_stop_def getInstance_def split: option.splits)

lemma run_body_passes:
  "list_all (passes (must_stop name s)) pre \<Longrightarrow>
   run_body name (pre @ rest) s
     = run_body name rest (s \<lparr> world := foldl apply_step (world s) pre \<rparr>)"
proof (induction pre arbitrary: s)
  case Nil
  show ?case by simp
next
  case (Cons i pre)
  have tl: "list_all (passes (must_stop name s)) pre" using Cons.prems by simp
  show ?case
  proof (cases i)
    case (Act f)
    have "list_all (passes (must_stop name (s \<lparr> world := f (world s) \<rparr>))) pre"
      using tl by (simp add: must_stop_world)
    from Cons.IH [OF this] show ?thesis using Act by simp
  next
    case Suspend
    with Cons.prems show ?thesis by simp
  next
    case (Throw e)
    with Cons.prems show ?thesis by simp
  next
    case (CheckStop cleanup)
    then have ns: "\<not> must_stop name s" using Cons.prems by (simp split: if_splits)
    have step: "run_body name (CheckStop cleanup # pre @ rest) s = run_body name (pre @ rest) s"
    proof (cases "getInstance name s")
      case None
      then show ?thesis by simp
    next
      case (Some d)
      then have "stop_signal d (phase s) = None"
        using ns by (simp add: must_stop_def split: option.splits)
      then have "checkStop cleanup d (phase s) (world s) = (None, world s)"
        by (simp add: checkStop_def)
      then show ?thesis using Some by simp
    qed
    show ?thesis using Cons.IH [OF tl] CheckStop step by simp
  qed
qed

lemma run_body_stops:
  assumes "getInstance name s = Some d" "stop_signal d (phase s) = Some interrupt"
  shows "run_body name (map Act fs @ CheckStop cleanup # rest) s
     = (case cleanup of
          None \<Rightarrow> (Raised interrupt, s \<lparr> world := foldl (\<lambda>w g. g w) (world s) fs \<rparr>)
        | Some f \<Rightarrow>
            (case f (foldl (\<lambda>w g. g w) (world s) fs) of
               (Some e, w') \<Rightarrow> (Raised e, s \<lparr> world := w' \<rparr>)
             | (None, w') \<Rightarrow> (Raised interrupt, s \<lparr> world := w' \<rparr>)))"
proof -
  let ?w = "foldl (\<lambda>w g. g w) (world s) fs"
  let ?s1 = "s \<lparr> world := ?w \<rparr>"
  have g: "getInstance name ?s1 = Some d" using assms(1) by (simp add: getInstance_def)
  have "run_body name (map Act fs @ CheckStop cleanup # rest) s
          = run_body name (CheckStop cleanup # rest) ?s1"
    by (rule run_body_acts)
  also have "\<dots> = (case checkStop cleanup d (phase s) ?w of
                       (Some e, w') \<Rightarrow> (Raised e, ?s1 \<lparr> world := w' \<rparr>)
                     | (None, w') \<Rightarrow> run_body name rest (?s1 \<lparr> world := w' \<rparr>))"
    using g by simp
  finally show ?thesis
    using assms(2) by (simp add: checkStop_def split: option.splits prod.splits)
qed

lemma settle_fields:
  "world (settle name (out, s)) = world s"
  "phase (settle name (out, s)) = phase s"
  by (cases out; simp add: erase_record_def saveException_def)+

lemma run_body_fields:
  "instances (snd (run_body name body s)) = instances s"
  "suspended (snd (run_body name body s)) = suspended s"
  "mExceptionQueue (snd (run_body name body s)) = mExceptionQueue s"
  "phase (snd (run_body name body s)) = phase s"
proof -
  obtain w where "snd (run_body name body s) = s \<lparr> world := w \<rparr>"
    using run_body_frame [of name body s] by blast
  then show "instances (snd (run_body name body s)) = instances s"
    "suspended (snd (run_body name body s)) = suspended s"
    "mExceptionQueue (snd (run_body name body s)) = mExceptionQueue s"
    "phase (snd (run_body name body s)) = phase s"
    by simp_all
qed

lemma toplevel_world:
  "world (toplevel name body s) = world (snd (run_body name body s))"
  by (cases "run_body name body s") (simp add: toplevel_def settle_fields)

lemma toplevel_outcome:
  "toplevel name body s =
     (case fst (run_body name body s) of
        Suspended rest \<Rightarrow>
          (snd (run_body name body s)) \<lparr> suspended := suspended s @ [(name, rest)] \<rparr>
      | Completed \<Rightarrow> erase_record name (snd (run_body name body s))
      | Raised e \<Rightarrow>
          (if is_a (ex_type e) Stop then erase_record name (snd (run_body name body s))
           else saveException name e (erase_record name (snd (run_body name body s)))))"
proof -
  obtain out s' where r: "run_body name body s = (out, s')" by (cases "run_body name body s")
  have "suspended s' = suspended s" using run_body_fields(2) [of name body s] r by simp
  then show ?thesis by (cases out) (simp_all add: toplevel_def r)
qed

section \<open>Properties of launch\<close>

lemma erase_record_live: "name \<notin> set (live_names (erase_record name s))"
  by (auto simp: erase_record_def live_names_def)

lemma launch_after:
  assumes "run_body (fst (generateDistinctName prefix s)) body (launch_state prefix s) = (out, s')"
  shows "world (snd (launch prefix body s)) = world s'"
    and "out = Suspended rest \<Longrightarrow>
           suspended (snd (launch prefix body s))
             = suspended s @ [(fst (generateDistinctName prefix s), rest)]
           \<and> fst (generateDistinctName prefix s) \<in> set (live_names (snd (launch prefix body s)))"
    and "out = Completed \<or> (\<exists>e. out = Raised e) \<Longrightarrow>
           suspended (snd (launch prefix body s)) = suspended s
           \<and> fst (generateDistinctName prefix s) \<notin> set (live_names (snd (launch prefix body s)))"
proof -
  let ?name = "fst (generateDistinctName prefix s)"
  let ?ls = "launch_state prefix s"
  have l: "snd (launch prefix body s) = toplevel ?name body ?ls" by (simp add: launch_unfold)
  have s': "s' = snd (run_body ?name body ?ls)" and out: "out = fst (run_body ?name body ?ls)"
    using assms by simp_all
  have inst: "instances s' = instances ?ls" and susp: "suspended s' = suspended s"
    unfolding s' by (simp_all add: run_body_fields launch_state_fields)
  have ln: "live_names s' = live_names s @ [?name]"
    using inst launch_state_fields(5) [of prefix s] by (simp add: live_names_def)
  show "world (snd (launch prefix body s)) = world s'"
    by (simp add: l toplevel_world s')
  show "suspended (snd (launch prefix body s)) = suspended s @ [(?name, rest)]
           \<and> ?name \<in> set (live_names (snd (launch prefix body s)))"
    if "out = Suspended rest"
  proof -
    have t: "toplevel ?name body ?ls = s' \<lparr> suspended := suspended ?ls @ [(?name, rest)] \<rparr>"
      using that out by (simp add: toplevel_outcome s')
    have "live_names (snd (launch prefix body s)) = live_names s'"
      by (simp add: l t live_names_def)
    then show ?thesis using ln by (simp add: l t launch_state_fields)
  qed
  show "suspended (snd (launch prefix body s)) = suspended s
           \<and> ?name \<notin> set (live_names (snd (launch prefix body s)))"
    if "out = Completed \<or> (\<exists>e. out = Raised e)"
  proof -
    have t: "toplevel ?name body ?ls = erase_record ?name s'
             \<or> (\<exists>e. toplevel ?name body ?ls = saveException ?name e (erase_record ?name s'))"
    proof (cases out)
      case Completed
      then show ?thesis using out by (simp add: toplevel_outcome s')
    next
      case (Suspended r)
      with that show ?thesis by simp
    next
      case (Raised e)
      show ?thesis
      proof (cases "is_a (ex_type e) Stop")
        case True
        then show ?thesis using Raised out by (simp add: toplevel_outcome s')
      next
        case False
        then have "toplevel ?name body ?ls = saveException ?name e (erase_record ?name s')"
          using Raised out by (simp add: toplevel_outcome s')
        then show ?thesis by blast
      qed
    qed
    have a: "suspended (erase_record ?name s') = suspended s"
      using susp by (simp add: erase_record_def)
    have b: "\<And>e. live_names (saveException ?name e (erase_record ?name s'))
                 = live_names (erase_record ?name s')"
      "\<And>e. suspended (saveException ?name e (erase_record ?name s'))
                 = suspended (erase_record ?name s')"
      by (simp_all add: saveException_def live_names_def)
    from t show ?thesis
      using a b erase_record_live [of ?name s'] unfolding l by auto
  qed
qed

lemma launch_first_run:
  "run_body (fst (generateDistinctName prefix s)) (pre @ rest) (launch_state prefix s)
     = run_body (fst (generateDistinctName prefix s)) rest
         ((launch_state prefix s) \<lparr> world := foldl apply_step (world s) pre \<rparr>)"
  if "list_all (passes (phase s \<noteq> Phase_Running)) pre"
  using run_body_passes [of "fst (generateDistinctName prefix s)" "launch_state prefix s" pre rest]
    that
  by (simp add: must_stop_launch_state launch_state_fields)

lemma launch_stopping_run:
  assumes "phase s \<noteq> Phase_Running"
  shows "\<exists>interrupt.
     is_a (ex_type interrupt) Stop
     \<and> run_body (fst (generateDistinctName prefix s)) (map Act fs @ CheckStop cleanup # rest)
         (launch_state prefix s)
       = (case cleanup of
            None \<Rightarrow> (Raised interrupt,
                      (launch_state prefix s) \<lparr> world := foldl (\<lambda>w g. g w) (world s) fs \<rparr>)
          | Some f \<Rightarrow>
              (case f (foldl (\<lambda>w g. g w) (world s) fs) of
                 (Some e, w') \<Rightarrow> (Raised e, (launch_state prefix s) \<lparr> world := w' \<rparr>)
               | (None, w') \<Rightarrow> (Raised interrupt, (launch_state prefix s) \<lparr> world := w' \<rparr>)))"
proof -
  let ?name = "fst (generateDistinctName prefix s)"
  let ?d = "new_CoroData ?name (now s)"
  obtain interrupt where i: "stop_signal ?d (phase s) = Some interrupt"
    and st: "is_a (ex_type interrupt) Stop"
    using assms by (cases "phase s") (auto simp: stop_signal_def is_a.simps)
  have "stop_signal ?d (phase (launch_state prefix s)) = Some interrupt"
    using i by (simp add: launch_state_fields)
  from run_body_stops [OF getInstance_launch_state this, of fs cleanup rest]
  have "run_body ?name (map Act fs @ CheckStop cleanup # rest) (launch_state prefix s)
       = (case cleanup of
            None \<Rightarrow> (Raised interrupt,
                      (launch_state prefix s) \<lparr> world := foldl (\<lambda>w g. g w) (world s) fs \<rparr>)
          | Some f \<Rightarrow>
              (case f (foldl (\<lambda>w g. g w) (world s) fs) of
                 (Some e, w') \<Rightarrow> (Raised e, (launch_state prefix s) \<lparr> world := w' \<rparr>)
               | (None, w') \<Rightarrow> (Raised interrupt, (launch_state prefix s) \<lparr> world := w' \<rparr>)))"
    by (simp only: launch_state_fields(1))
  with st show ?thesis by blast
qed

text \<open>
  Claim C7. For every body, \<open>launch\<close> returns the generated name, and when it returns the
  new fiber has run on the calling thread up to its first suspension point or to its end:
  the world at return is the one the body's first run left; a body that suspended waits
  in the scheduler with the steps after the suspension point and its record is live; a
  body that returned or threw is gone. Spelled out on the steps of the body: whatever
  stretch of actions and passing \<open>checkStop\<close> calls comes before the first suspension
  point, the end or a throw, all its actions have happened at return and none of the
  later steps has; and when a stop phase is in effect, the actions before the first
  \<open>checkStop\<close> call and its cleanup have happened, and the fiber has ended there.
\<close>

theorem launch_runs_first_segment:
  fixes prefix :: string and s :: "'w LLCoros" and body pre rest :: "'w instr list"
  defines "name \<equiv> fst (generateDistinctName prefix s)"
  defines "started \<equiv> launch_state prefix s"
  shows
  "fst (launch prefix body s) = Inr name
   \<and> world (snd (launch prefix body s)) = world (snd (run_body name body started))
   \<and> (\<forall>later. fst (run_body name body started) = Suspended later \<longrightarrow>
         suspended (snd (launch prefix body s)) = suspended s @ [(name, later)]
         \<and> name \<in> set (live_names (snd (launch prefix body s))))
   \<and> (fst (run_body name body started) = Completed
        \<or> (\<exists>e. fst (run_body name body started) = Raised e) \<longrightarrow>
         suspended (snd (launch prefix body s)) = suspended s
         \<and> name \<notin> set (live_names (snd (launch prefix body s))))
   \<and> (list_all (passes (phase s \<noteq> Phase_Running)) pre \<longrightarrow>
         world (snd (launch prefix (pre @ Suspend # rest) s)) = foldl apply_step (world s) pre
         \<and> suspended (snd (launch prefix (pre @ Suspend # rest) s)) = suspended s @ [(name, rest)]
         \<and> name \<in> set (live_names (snd (launch prefix (pre @ Suspend # rest) s)))
         \<and> world (snd (launch prefix pre s)) = foldl apply_step (world s) pre
         \<and> suspended (snd (launch prefix pre s)) = suspended s
         \<and> name \<notin> set (live_names (snd (launch prefix pre s)))
         \<and> world (snd (launch prefix (pre @ Throw e # rest) s)) = foldl apply_step (world s) pre
         \<and> suspended (snd (launch prefix (pre @ Throw e # rest) s)) = suspended s
         \<and> name \<notin> set (live_names (snd (launch prefix (pre @ Throw e # rest) s))))
   \<and> (phase s \<noteq> Phase_Running \<longrightarrow>
         world (snd (launch prefix (map Act fs @ CheckStop cleanup # rest) s))
           = (case cleanup of
                None \<Rightarrow> foldl (\<lambda>w g. g w) (world s) fs
              | Some f \<Rightarrow> snd (f (foldl (\<lambda>w g. g w) (world s) fs)))
         \<and> suspended (snd (launch prefix (map Act fs @ CheckStop cleanup # rest) s)) = suspended s
         \<and> name \<notin> set (live_names (snd (launch prefix (map Act fs @ CheckStop cleanup # rest) s))))"
proof -
  have c1: "fst (launch prefix body s) = Inr name"
    by (simp add: launch_unfold name_def)
  obtain out s' where r: "run_body name body started = (out, s')"
    by (cases "run_body name body started")
  note la = launch_after [OF r [unfolded name_def started_def]]
  have c2: "world (snd (launch prefix body s)) = world (snd (run_body name body started))"
    using la(1) r by simp
  have c3: "\<forall>later. fst (run_body name body started) = Suspended later \<longrightarrow>
         suspended (snd (launch prefix body s)) = suspended s @ [(name, later)]
         \<and> name \<in> set (live_names (snd (launch prefix body s)))"
    using la(2) r by (simp add: name_def)
  have c4: "fst (run_body name body started) = Completed
        \<or> (\<exists>e. fst (run_body name body started) = Raised e) \<longrightarrow>
         suspended (snd (launch prefix body s)) = suspended s
         \<and> name \<notin> set (live_names (snd (launch prefix body s)))"
    using la(3) r by (simp add: name_def)
  have c5: "world (snd (launch prefix (pre @ Suspend # rest) s)) = foldl apply_step (world s) pre
         \<and> suspended (snd (launch prefix (pre @ Suspend # rest) s)) = suspended s @ [(name, rest)]
         \<and> name \<in> set (live_names (snd (launch prefix (pre @ Suspend # rest) s)))
         \<and> world (snd (launch prefix pre s)) = foldl apply_step (world s) pre
         \<and> suspended (snd (launch prefix pre s)) = suspended s
         \<and> name \<notin> set (live_names (snd (launch prefix pre s)))
         \<and> world (snd (launch prefix (pre @ Throw e # rest) s)) = foldl apply_step (world s) pre
         \<and> suspended (snd (launch prefix (pre @ Throw e # rest) s)) = suspended s
         \<and> name \<notin> set (live_names (snd (launch prefix (pre @ Throw e # rest) s)))"
    if p: "list_all (passes (phase s \<noteq> Phase_Running)) pre"
  proof -
    let ?s1 = "(launch_state prefix s) \<lparr> world := foldl apply_step (world s) pre \<rparr>"
    have a: "run_body (fst (generateDistinctName prefix s)) (pre @ Suspend # rest)
               (launch_state prefix s) = (Suspended rest, ?s1)"
      using launch_first_run [OF p, of prefix "Suspend # rest"] by simp
    have b: "run_body (fst (generateDistinctName prefix s)) pre (launch_state prefix s)
               = (Completed, ?s1)"
      using launch_first_run [OF p, of prefix "[]"] by simp
    have c: "run_body (fst (generateDistinctName prefix s)) (pre @ Throw e # rest)
               (launch_state prefix s) = (Raised e, ?s1)"
      using launch_first_run [OF p, of prefix "Throw e # rest"] by simp
    from launch_after [OF a] launch_after [OF b] launch_after [OF c]
    show ?thesis by (simp add: name_def)
  qed
  have c6: "world (snd (launch prefix (map Act fs @ CheckStop cleanup # rest) s))
           = (case cleanup of
                None \<Rightarrow> foldl (\<lambda>w g. g w) (world s) fs
              | Some f \<Rightarrow> snd (f (foldl (\<lambda>w g. g w) (world s) fs)))
         \<and> suspended (snd (launch prefix (map Act fs @ CheckStop cleanup # rest) s)) = suspended s
         \<and> name \<notin> set (live_names (snd (launch prefix (map Act fs @ CheckStop cleanup # rest) s)))"
    if q: "phase s \<noteq> Phase_Running"
  proof -
    let ?body = "map Act fs @ CheckStop cleanup # rest"
    obtain o2 s2 where r2: "run_body (fst (generateDistinctName prefix s)) ?body
        (launch_state prefix s) = (o2, s2)"
      by (cases "run_body (fst (generateDistinctName prefix s)) ?body (launch_state prefix s)")
    from launch_stopping_run [OF q, of prefix fs cleanup rest] r2
    obtain interrupt where eq: "(o2, s2) = (case cleanup of
            None \<Rightarrow> (Raised interrupt,
                      (launch_state prefix s) \<lparr> world := foldl (\<lambda>w g. g w) (world s) fs \<rparr>)
          | Some f \<Rightarrow>
              (case f (foldl (\<lambda>w g. g w) (world s) fs) of
                 (Some e, w') \<Rightarrow> (Raised e, (launch_state prefix s) \<lparr> world := w' \<rparr>)
               | (None, w') \<Rightarrow> (Raised interrupt, (launch_state prefix s) \<lparr> world := w' \<rparr>)))"
      by auto
    have raised: "\<exists>x. o2 = Raised x"
      and w: "world s2 = (case cleanup of
                None \<Rightarrow> foldl (\<lambda>w g. g w) (world s) fs
              | Some f \<Rightarrow> snd (f (foldl (\<lambda>w g. g w) (world s) fs)))"
    proof -
      show "\<exists>x. o2 = Raised x"
        using eq by (cases cleanup) (auto split: prod.splits option.splits)
      show "world s2 = (case cleanup of
                None \<Rightarrow> foldl (\<lambda>w g. g w) (world s) fs
              | Some f \<Rightarrow> snd (f (foldl (\<lambda>w g. g w) (world s) fs)))"
        using eq by (cases cleanup) (auto split: prod.splits option.splits)
    qed
    from launch_after(1) [OF r2] launch_after(3) [OF r2] raised w
    show ?thesis by (simp add: name_def)
  qed
  from c1 c2 c3 c4 c5 c6 show ?thesis by blast
qed

theorem launch_runs_first_segment_witness:
  "list_all (passes (phase \<lparr> instances = [], mExceptionQueue = [], mStackSize = 0, unique = 0,
        phase = Phase_Running, suspended = [], world = ([] :: string list), now = 0,
        mStopListeners = [] \<rparr> \<noteq> Phase_Running))
      [Act (\<lambda>w. w @ [''a'']), CheckStop None, Act (\<lambda>w. w @ [''b''])]
   \<and> world (snd (launch ''job''
        ([Act (\<lambda>w. w @ [''a'']), CheckStop None, Act (\<lambda>w. w @ [''b''])]
         @ Suspend # [Act (\<lambda>w. w @ [''c''])])
        \<lparr> instances = [], mExceptionQueue = [], mStackSize = 0, unique = 0,
          phase = Phase_Running, suspended = [], world = ([] :: string list), now = 0,
          mStopListeners = [] \<rparr>))
       = [''a'', ''b'']
   \<and> phase \<lparr> instances = [], mExceptionQueue = [], mStackSize = 0, unique = 0,
        phase = Phase_Stopping, suspended = [], world = ([] :: string list), now = 0,
        mStopListeners = [] \<rparr> \<noteq> Phase_Running
   \<and> world (snd (launch ''job''
        (map Act [\<lambda>w. w @ [''a'']] @ CheckStop (Some (\<lambda>w. (None, w @ [''closed''])))
           # [Act (\<lambda>w. w @ [''b'']), Suspend])
        \<lparr> instances = [], mExceptionQueue = [], mStackSize = 0, unique = 0,
          phase = Phase_Stopping, suspended = [], world = ([] :: string list), now = 0,
          mStopListeners = [] \<rparr>))
       = [''a'', ''closed'']"
proof -
  let ?run = "\<lparr> instances = [], mExceptionQueue = [], mStackSize = 0, unique = 0,
        phase = Phase_Running, suspended = [], world = ([] :: string list), now = 0,
        mStopListeners = [] \<rparr>"
  let ?stop = "\<lparr> instances = [], mExceptionQueue = [], mStackSize = 0, unique = 0,
        phase = Phase_Stopping, suspended = [], world = ([] :: string list), now = 0,
        mStopListeners = [] \<rparr>"
  let ?pre = "[Act (\<lambda>w. w @ [''a'']), CheckStop None, Act (\<lambda>w. w @ [''b''])]"
  have h1: "list_all (passes (phase ?run \<noteq> Phase_Running)) ?pre" by simp
  have h2: "phase ?stop \<noteq> Phase_Running" by simp
  note t1 = launch_runs_first_segment [where prefix = "''job''" and s = ?run and pre = ?pre
      and rest = "[Act (\<lambda>w. w @ [''c''])]",
      THEN conjunct2, THEN conjunct2, THEN conjunct2, THEN conjunct2, THEN conjunct1,
      rule_format, OF h1, THEN conjunct1]
  note t2 = launch_runs_first_segment [where prefix = "''job''" and s = ?stop
      and fs = "[\<lambda>w. w @ [''a'']]" and cleanup = "Some (\<lambda>w. (None, w @ [''closed'']))"
      and rest = "[Act (\<lambda>w. w @ [''b'']), Suspend]",
      THEN conjunct2, THEN conjunct2, THEN conjunct2, THEN conjunct2, THEN conjunct2,
      rule_format, OF h2, THEN conjunct1]
  have a: "world (snd (launch ''job'' (?pre @ Suspend # [Act (\<lambda>w. w @ [''c''])]) ?run))
       = [''a'', ''b'']"
    using t1 by simp
  have b: "world (snd (launch ''job''
        (map Act [\<lambda>w. w @ [''a'']] @ CheckStop (Some (\<lambda>w. (None, w @ [''closed''])))
           # [Act (\<lambda>w. w @ [''b'']), Suspend]) ?stop))
       = [''a'', ''closed'']"
    using t2 by simp
  from h1 a h2 b show ?thesis by blast
qed

section \<open>Properties of the exception relay\<close>

lemma toplevel_queue_exact:
  "mExceptionQueue (toplevel name body s)
     = mExceptionQueue s
       @ map (\<lambda>e. \<lparr> name_of = name, exception_of = e \<rparr>) (uncaught (fst (run_body name body s)))"
proof -
  obtain out s' where r: "run_body name body s = (out, s')" by (cases "run_body name body s")
  have q: "mExceptionQueue s' = mExceptionQueue s"
    using run_body_fields(3) [of name body s] r by simp
  show ?thesis
    by (cases out) (simp_all add: toplevel_def r q erase_record_def saveException_def)
qed

lemma launch_queue_exact:
  "mExceptionQueue (snd (launch prefix body s))
     = mExceptionQueue s
       @ map (\<lambda>e. \<lparr> name_of = fst (generateDistinctName prefix s), exception_of = e \<rparr>)
           (uncaught (fst (run_body (fst (generateDistinctName prefix s)) body
                             (launch_state prefix s))))"
  by (simp add: launch_unfold toplevel_queue_exact launch_state_fields)

lemma resume_queue_exact:
  "map_of (suspended s) co = Some rest0 \<Longrightarrow>
   mExceptionQueue (resume co s)
     = mExceptionQueue s
       @ map (\<lambda>e. \<lparr> name_of = co, exception_of = e \<rparr>)
           (uncaught (fst (run_body co rest0 (resume_state co s))))"
  by (simp add: resume_unfold toplevel_queue_exact) (simp add: resume_state_def)

lemma must_stop_resume_state: "must_stop co (resume_state co s) = must_stop co s"
  by (simp add: must_stop_def getInstance_def resume_state_def split: option.splits)

lemma step_captured:
  "ev \<noteq> Rethrow \<Longrightarrow>
   raised [fst (step ev s)] = []
   \<and> map exception_of (mExceptionQueue (snd (step ev s)))
       = map exception_of (mExceptionQueue s) @ thrown_by ev s"
proof (cases ev)
  case (Launch prefix body)
  then show ?thesis
    using launch_queue_exact [of prefix body s] launch_returns [of prefix body s]
    by (cases "launch prefix body s") (auto simp: comp_def)
next
  case (Resume co)
  show ?thesis
  proof (cases "map_of (suspended s) co")
    case None
    then show ?thesis using Resume by (simp add: resume_def)
  next
    case (Some rest0)
    then show ?thesis using Resume resume_queue_exact [OF Some] by (simp add: comp_def)
  qed
next
  case (Killreq caller co)
  then show ?thesis
    by (cases "getInstance co s") (simp_all add: killreq_def notify_stop_def)
next
  case Rethrow
  assume "ev \<noteq> Rethrow"
  with Rethrow show ?thesis by simp
next
  case (SetPhase ph)
  then show ?thesis by (simp add: set_phase_def notify_stop_def)
next
  case (GetStopListener caller consumer cleanup)
  then show ?thesis by (simp add: getStopListener_def)
qed

lemma run_fifo_exact:
  "map exception_of (mExceptionQueue s) @ captured evs s
     = raised (fst (run evs s)) @ map exception_of (mExceptionQueue (snd (run evs s)))"
proof (induction evs arbitrary: s)
  case Nil
  show ?case by simp
next
  case (Cons ev evs)
  obtain r s1 where st: "step ev s = (r, s1)" by (cases "step ev s")
  obtain rs s2 where rn: "run evs s1 = (rs, s2)" by (cases "run evs s1")
  have ih: "map exception_of (mExceptionQueue s1) @ captured evs s1
              = raised rs @ map exception_of (mExceptionQueue s2)"
    using Cons.IH [of s1] rn by simp
  have res: "run (ev # evs) s = (r # rs, s2)" by (simp add: st rn)
  have cap: "captured (ev # evs) s = thrown_by ev s @ captured evs s1" by (simp add: st)
  show ?case
  proof (cases "ev = Rethrow")
    case False
    from step_captured [OF False, of s] st
    have a: "raised [r] = []"
      and b: "map exception_of (mExceptionQueue s1)
                = map exception_of (mExceptionQueue s) @ thrown_by ev s"
      by simp_all
    have "raised (r # rs) = raised rs" using a by (subst raised_Cons) simp
    then show ?thesis unfolding res cap fst_conv snd_conv using ih b by simp
  next
    case True
    then have t: "thrown_by ev s = []" by simp
    show ?thesis
    proof (cases "mExceptionQueue s")
      case Nil
      then have "r = RetVoid" "s1 = s" using st True by (simp_all add: rethrow_def)
      then show ?thesis unfolding res cap t fst_conv snd_conv using ih by simp
    next
      case (Cons x q)
      then have "r = RetRaise (exception_of x)" "mExceptionQueue s1 = q"
        using st True by (auto simp: rethrow_def)
      then show ?thesis unfolding res cap t fst_conv snd_conv using ih Cons by simp
    qed
  qed
qed

lemma launch_throw_queued:
  assumes "list_all (passes (phase s \<noteq> Phase_Running)) pre" "\<not> is_a (ex_type e) Stop"
  shows "mExceptionQueue (snd (launch prefix (pre @ Throw e # rest) s))
           = mExceptionQueue s
             @ [\<lparr> name_of = fst (generateDistinctName prefix s), exception_of = e \<rparr>]"
proof -
  have "fst (run_body (fst (generateDistinctName prefix s)) (pre @ Throw e # rest)
               (launch_state prefix s)) = Raised e"
    using launch_first_run [OF assms(1), of prefix "Throw e # rest"] by simp
  then show ?thesis using assms(2) by (simp add: launch_queue_exact)
qed

lemma launch_cleanup_throw_queued:
  assumes "phase s \<noteq> Phase_Running" "f (foldl (\<lambda>w g. g w) (world s) fs) = (Some e, w')"
    "\<not> is_a (ex_type e) Stop"
  shows "mExceptionQueue (snd (launch prefix (map Act fs @ CheckStop (Some f) # rest) s))
           = mExceptionQueue s
             @ [\<lparr> name_of = fst (generateDistinctName prefix s), exception_of = e \<rparr>]"
proof -
  from launch_stopping_run [OF assms(1), of prefix fs "Some f" rest]
  have "fst (run_body (fst (generateDistinctName prefix s))
               (map Act fs @ CheckStop (Some f) # rest) (launch_state prefix s)) = Raised e"
    using assms(2) by auto
  then show ?thesis using assms(3) by (simp add: launch_queue_exact)
qed

lemma resume_throw_queued:
  assumes "map_of (suspended s) co = Some (pre @ Throw e # rest)"
    "list_all (passes (must_stop co s)) pre" "\<not> is_a (ex_type e) Stop"
  shows "mExceptionQueue (resume co s)
           = mExceptionQueue s @ [\<lparr> name_of = co, exception_of = e \<rparr>]"
proof -
  have "list_all (passes (must_stop co (resume_state co s))) pre"
    using assms(2) by (simp add: must_stop_resume_state)
  from run_body_passes [OF this, of "Throw e # rest"]
  have "fst (run_body co (pre @ Throw e # rest) (resume_state co s)) = Raised e" by simp
  then show ?thesis using assms(3) resume_queue_exact [OF assms(1)] by simp
qed

lemma resume_cleanup_throw_queued:
  assumes "map_of (suspended s) co = Some (map Act fs @ CheckStop (Some f) # rest)"
    "must_stop co s" "f (foldl (\<lambda>w g. g w) (world s) fs) = (Some e, w')"
    "\<not> is_a (ex_type e) Stop"
  shows "mExceptionQueue (resume co s)
           = mExceptionQueue s @ [\<lparr> name_of = co, exception_of = e \<rparr>]"
proof -
  from assms(2) obtain d interrupt where d: "getInstance co s = Some d"
    and i: "stop_signal d (phase s) = Some interrupt"
    by (auto simp: must_stop_def split: option.splits)
  have d': "getInstance co (resume_state co s) = Some d"
    using d by (simp add: getInstance_def resume_state_def)
  have i': "stop_signal d (phase (resume_state co s)) = Some interrupt"
    using i by (simp add: resume_state_def)
  have w: "world (resume_state co s) = world s" by (simp add: resume_state_def)
  from run_body_stops [OF d' i', of fs "Some f" rest]
  have "fst (run_body co (map Act fs @ CheckStop (Some f) # rest) (resume_state co s)) = Raised e"
    using assms(3) by (simp add: w)
  then show ?thesis using assms(4) resume_queue_exact [OF assms(1)] by simp
qed

text \<open>
  Claim C2. Whatever the body does, no exception leaves \<open>launch\<close>, which returns the
  generated name; the exception with which a body ends its first run, or a later run
  after being resumed, is appended at the back of the exception queue with the
  coroutine's name unless it is a stop interrupt, and nothing else is appended. Spelled
  out on the steps of the body: a throw that follows any stretch of actions and passing
  \<open>checkStop\<close> calls is queued, and so is the exception that a \<open>checkStop\<close> cleanup throws
  when the fiber has to stop. Over any history of calls, the exceptions queued at its
  start followed by the exceptions the bodies throw in its course, in the order thrown,
  are exactly the exceptions that its \<open>rethrow\<close> calls throw, in that order, followed by
  those still queued at its end; \<open>rethrow\<close> pops and throws the first queued exception,
  and does nothing when the queue is empty.
\<close>

theorem exceptions_relayed_fifo:
  fixes prefix co :: string and s :: "'w LLCoros" and body pre rest :: "'w instr list"
  defines "name \<equiv> fst (generateDistinctName prefix s)"
  shows
  "fst (launch prefix body s) = Inr name
   \<and> mExceptionQueue (snd (launch prefix body s))
       = mExceptionQueue s
         @ map (\<lambda>x. \<lparr> name_of = name, exception_of = x \<rparr>)
             (uncaught (fst (run_body name body (launch_state prefix s))))
   \<and> (\<forall>waiting. map_of (suspended s) co = Some waiting \<longrightarrow>
         mExceptionQueue (resume co s)
           = mExceptionQueue s
             @ map (\<lambda>x. \<lparr> name_of = co, exception_of = x \<rparr>)
                 (uncaught (fst (run_body co waiting (resume_state co s)))))
   \<and> (list_all (passes (phase s \<noteq> Phase_Running)) pre \<and> \<not> is_a (ex_type e) Stop \<longrightarrow>
         mExceptionQueue (snd (launch prefix (pre @ Throw e # rest) s))
           = mExceptionQueue s @ [\<lparr> name_of = name, exception_of = e \<rparr>])
   \<and> (phase s \<noteq> Phase_Running \<and> f (foldl (\<lambda>w g. g w) (world s) fs) = (Some e, w')
        \<and> \<not> is_a (ex_type e) Stop \<longrightarrow>
         mExceptionQueue (snd (launch prefix (map Act fs @ CheckStop (Some f) # rest) s))
           = mExceptionQueue s @ [\<lparr> name_of = name, exception_of = e \<rparr>])
   \<and> (map_of (suspended s) co = Some (pre @ Throw e # rest)
        \<and> list_all (passes (must_stop co s)) pre \<and> \<not> is_a (ex_type e) Stop \<longrightarrow>
         mExceptionQueue (resume co s)
           = mExceptionQueue s @ [\<lparr> name_of = co, exception_of = e \<rparr>])
   \<and> (map_of (suspended s) co = Some (map Act fs @ CheckStop (Some f) # rest)
        \<and> must_stop co s \<and> f (foldl (\<lambda>w g. g w) (world s) fs) = (Some e, w')
        \<and> \<not> is_a (ex_type e) Stop \<longrightarrow>
         mExceptionQueue (resume co s)
           = mExceptionQueue s @ [\<lparr> name_of = co, exception_of = e \<rparr>])
   \<and> map exception_of (mExceptionQueue s) @ captured evs s
       = raised (fst (run evs s)) @ map exception_of (mExceptionQueue (snd (run evs s)))
   \<and> (\<forall>x q. mExceptionQueue s = x # q \<longrightarrow>
          rethrow s = (Some (exception_of x), s \<lparr> mExceptionQueue := q \<rparr>))
   \<and> (mExceptionQueue s = [] \<longrightarrow> rethrow s = (None, s))"
proof -
  have r1: "\<forall>x q. mExceptionQueue s = x # q \<longrightarrow>
          rethrow s = (Some (exception_of x), s \<lparr> mExceptionQueue := q \<rparr>)"
    by (simp add: rethrow_def)
  have r2: "mExceptionQueue s = [] \<longrightarrow> rethrow s = (None, s)"
    by (simp add: rethrow_def)
  have c3: "\<forall>waiting. map_of (suspended s) co = Some waiting \<longrightarrow>
         mExceptionQueue (resume co s)
           = mExceptionQueue s
             @ map (\<lambda>x. \<lparr> name_of = co, exception_of = x \<rparr>)
                 (uncaught (fst (run_body co waiting (resume_state co s))))"
    using resume_queue_exact [of s co] by blast
  from launch_returns [of prefix body s] launch_queue_exact [of prefix body s] c3
       launch_throw_queued [of s pre e prefix rest]
       launch_cleanup_throw_queued [of s f fs e w' prefix rest]
       resume_throw_queued [of s co pre e rest]
       resume_cleanup_throw_queued [of s co fs f rest e w']
       run_fifo_exact [of s evs] r1 r2
  show ?thesis unfolding name_def by blast
qed

theorem exceptions_relayed_fifo_witness:
  "list_all (passes (phase \<lparr> instances = [], mExceptionQueue = [], mStackSize = 0, unique = 0,
        phase = Phase_Running, suspended = [], world = ([] :: string list), now = 0,
        mStopListeners = [] \<rparr> \<noteq> Phase_Running))
      [Act (\<lambda>w. w @ [''a'']), CheckStop None]
   \<and> \<not> is_a (ex_type \<lparr> ex_type = Foreign ''RuntimeError'', ex_what = ''boom'' \<rparr>) Stop
   \<and> mExceptionQueue (snd (launch ''fetch''
         ([Act (\<lambda>w. w @ [''a'']), CheckStop None]
          @ Throw \<lparr> ex_type = Foreign ''RuntimeError'', ex_what = ''boom'' \<rparr> # [])
         \<lparr> instances = [], mExceptionQueue = [], mStackSize = 0, unique = 0,
           phase = Phase_Running, suspended = [], world = ([] :: string list), now = 0,
           mStopListeners = [] \<rparr>))
       = [\<lparr> name_of = ''fetch0'',
            exception_of = \<lparr> ex_type = Foreign ''RuntimeError'', ex_what = ''boom'' \<rparr> \<rparr>]
   \<and> phase \<lparr> instances = [], mExceptionQueue = [], mStackSize = 0, unique = 0,
        phase = Phase_Stopped, suspended = [], world = ([] :: string list), now = 0,
        mStopListeners = [] \<rparr> \<noteq> Phase_Running
   \<and> mExceptionQueue (snd (launch ''fetch''
         (map Act [] @ CheckStop (Some (\<lambda>w.
              (Some \<lparr> ex_type = Foreign ''RuntimeError'', ex_what = ''boom'' \<rparr>, w))) # [])
         \<lparr> instances = [], mExceptionQueue = [], mStackSize = 0, unique = 0,
           phase = Phase_Stopped, suspended = [], world = ([] :: string list), now = 0,
           mStopListeners = [] \<rparr>))
       = [\<lparr> name_of = ''fetch0'',
            exception_of = \<lparr> ex_type = Foreign ''RuntimeError'', ex_what = ''boom'' \<rparr> \<rparr>]
   \<and> fst (run [Launch ''fetch'' [Act (\<lambda>w. w @ [''a'']), CheckStop None,
                                  Throw \<lparr> ex_type = Foreign ''RuntimeError'', ex_what = ''boom'' \<rparr>],
               Rethrow, Rethrow]
         \<lparr> instances = [], mExceptionQueue = [], mStackSize = 0, unique = 0,
           phase = Phase_Running, suspended = [], world = ([] :: string list), now = 0,
           mStopListeners = [] \<rparr>)
       = [RetName ''fetch0'',
          RetRaise \<lparr> ex_type = Foreign ''RuntimeError'', ex_what = ''boom'' \<rparr>,
          RetVoid]"
proof -
  let ?boom = "\<lparr> ex_type = Foreign ''RuntimeError'', ex_what = ''boom'' \<rparr>"
  let ?s = "\<lparr> instances = [], mExceptionQueue = [], mStackSize = 0, unique = 0,
           phase = Phase_Running, suspended = [], world = ([] :: string list), now = 0,
           mStopListeners = [] \<rparr>"
  let ?t = "\<lparr> instances = [], mExceptionQueue = [], mStackSize = 0, unique = 0,
           phase = Phase_Stopped, suspended = [], world = ([] :: string list), now = 0,
           mStopListeners = [] \<rparr>"
  let ?pre = "[Act (\<lambda>w. w @ [''a'']), CheckStop None]"
  let ?f = "\<lambda>w :: string list. (Some ?boom, w)"
  have h1: "list_all (passes (phase ?s \<noteq> Phase_Running)) ?pre" by simp
  have h2: "\<not> is_a (ex_type ?boom) Stop" by (simp add: is_a.simps)
  have h3: "phase ?t \<noteq> Phase_Running" by simp
  have h4: "?f (foldl (\<lambda>w g. g w) (world ?t) []) = (Some ?boom, [])" by simp
  have n: "fst (generateDistinctName ''fetch'' ?s) = ''fetch0''" by code_simp
  have m: "fst (generateDistinctName ''fetch'' ?t) = ''fetch0''" by code_simp
  note a = exceptions_relayed_fifo [where prefix = "''fetch''" and s = ?s and pre = ?pre
      and e = ?boom and rest = "[]",
      THEN conjunct2, THEN conjunct2, THEN conjunct2, THEN conjunct1, rule_format,
      OF conjI [OF h1 h2]]
  note b = exceptions_relayed_fifo [where prefix = "''fetch''" and s = ?t and f = ?f
      and fs = "[]" and e = ?boom and w' = "[]" and rest = "[]",
      THEN conjunct2, THEN conjunct2, THEN conjunct2, THEN conjunct2, THEN conjunct1,
      rule_format, OF conjI [OF h3 conjI [OF h4 h2]]]
  have q1: "mExceptionQueue (snd (launch ''fetch'' (?pre @ Throw ?boom # []) ?s))
       = [\<lparr> name_of = ''fetch0'', exception_of = ?boom \<rparr>]"
    using a unfolding n by simp
  have q2: "mExceptionQueue (snd (launch ''fetch'' (map Act [] @ CheckStop (Some ?f) # []) ?t))
       = [\<lparr> name_of = ''fetch0'', exception_of = ?boom \<rparr>]"
    using b unfolding m by simp
  have r: "fst (run [Launch ''fetch'' [Act (\<lambda>w. w @ [''a'']), CheckStop None, Throw ?boom],
               Rethrow, Rethrow] ?s)
       = [RetName ''fetch0'', RetRaise ?boom, RetVoid]"
    by code_simp
  from h1 h2 q1 h3 q2 r show ?thesis by blast
qed

end
